theory Spec2Isabelle
  imports Main
begin

section \<open>Errors\<close>

text \<open>
  Every way the compiler stops early is a value: a failed \<^verbatim>\<open>check\<close>, the
  \<^verbatim>\<open>std::out_of_range\<close> thrown by \<^verbatim>\<open>std::map::at\<close>, a call of \<^verbatim>\<open>unreachable()\<close>,
  and the dereference of the end iterator that \<^verbatim>\<open>std::max_element\<close> returns on an
  empty range.
\<close>

datatype error = CheckFailed string | OutOfRange string | Unreachable string | EmptyRange

section \<open>The pass registry\<close>

text \<open>The pass objects that \<^verbatim>\<open>PassesBase::known_passes\<close> holds, one per registered name.\<close>

datatype Pass =
    EqualitySaturationPass
  | MergeAdvicesPass
  | DummyPass
  | TrivialConcatRemovalPass
  | TrivialOrRemoval
  | RemoveIdentityPass
  | RemillOFPatch
  | MergeAdviceConstraints

type_synonym NamedPass = "string \<times> Pass"

definition known_passes :: "(string \<times> Pass) list" where
  "known_passes =
    [(''eqsat'', EqualitySaturationPass),
     (''merge-advices'', MergeAdvicesPass),
     (''dummy-pass'', DummyPass),
     (''trivial-concat-removal'', TrivialConcatRemovalPass),
     (''remove-trivial-or'', TrivialOrRemoval),
     (''remove-identity'', RemoveIdentityPass),
     (''overflow-flag-fix'', RemillOFPatch),
     (''merge-transitive-advices'', MergeAdviceConstraints)]"

text \<open>
  \<^verbatim>\<open>add_pass\<close> looks the name up with \<^verbatim>\<open>std::map::at\<close>, which throws when the key is
  missing, and appends the named pass otherwise. The registry is an argument so that the
  driver can also be read against other registries.
\<close>

definition add_pass :: "(string \<times> Pass) list \<Rightarrow> NamedPass list \<Rightarrow> string \<Rightarrow> error + NamedPass list" where
  "add_pass known passes name =
     (case map_of known name of
        None \<Rightarrow> Inl (OutOfRange name)
      | Some pass \<Rightarrow> Inr (passes @ [(name, pass)]))"

text \<open>The three \<^verbatim>\<open>add_pass\<close> calls of the driver, in order, on a fresh optimizer.\<close>

definition driver_add_passes :: "(string \<times> Pass) list \<Rightarrow> error + NamedPass list" where
  "driver_add_passes known =
     (case add_pass known [] ''remove-transitive-advice'' of
        Inl e \<Rightarrow> Inl e
      | Inr p1 \<Rightarrow>
          (case add_pass known p1 ''remove-identity'' of
             Inl e \<Rightarrow> Inl e
           | Inr p2 \<Rightarrow> add_pass known p2 ''remove-trivial-or''))"

text \<open>
  Claim C1. The driver's first \<^verbatim>\<open>add_pass\<close> asks for \<^verbatim>\<open>remove-transitive-advice\<close>, which is
  not a key of the registry (the pass is registered as \<^verbatim>\<open>merge-transitive-advices\<close>), so
  the call throws and no pass is added; the other two names are keys.
\<close>

theorem driver_add_passes_throws:
  "driver_add_passes known_passes = Inl (OutOfRange ''remove-transitive-advice'')
   \<and> map_of known_passes ''remove-transitive-advice'' = None
   \<and> map_of known_passes ''merge-transitive-advices'' = Some MergeAdviceConstraints
   \<and> map_of known_passes ''remove-identity'' = Some RemoveIdentityPass
   \<and> map_of known_passes ''remove-trivial-or'' = Some TrivialOrRemoval"
  by (simp add: driver_add_passes_def add_pass_def known_passes_def)

section \<open>Decimal rendering of sizes\<close>

text \<open>
  \<^verbatim>\<open>std::to_string\<close> on an unsigned size: the decimal digits, most significant first,
  no sign and no leading zero (\<^verbatim>\<open>0\<close> is rendered as one digit).
\<close>

definition digit_char :: "nat \<Rightarrow> char" where
  "digit_char d = char_of (48 + d)"

function to_string :: "nat \<Rightarrow> string" where
  "to_string n = (if n < 10 then [digit_char n] else to_string (n div 10) @ [digit_char (n mod 10)])"
  by pat_completeness auto
termination
  by (relation "measure id") auto

declare to_string.simps [simp del]

section \<open>Shared-expression graph nodes\<close>

text \<open>
  A \<^verbatim>\<open>SelectChoice\<close> names a select operation and the index chosen for it; an
  \<^verbatim>\<open>InstructionProjection\<close> names the verify-instruction, the root operation inside it
  and the choices made on the way down. Circuit operations are referred to by their
  address.
\<close>

record Select =
  sel_id :: nat
  bits :: nat

record SelectChoice =
  sel :: Select
  chosen_idx :: nat

record InstructionProjection =
  vi :: nat
  root_in_vi :: nat
  select_choices :: "SelectChoice list"

text \<open>
  The book-keeping fields of a \<^verbatim>\<open>SEGNode\<close>. The child list \<^verbatim>\<open>_nodes\<close> is kept apart:
  functions that only read a node and its descendants see the node as a tree, functions
  that mutate shared nodes see a store of cells.
\<close>

record seg_info =
  node_id :: string
  isRoot :: bool
  valid_for_contexts :: "InstructionProjection list"
  roots :: "nat list"
  specializeble :: bool
  fd :: bool
  inline_cost :: int
  subtree_count :: int

datatype SEGNode = SEGNode (info: seg_info) (nodes: "SEGNode list")

subsection \<open>The structural hash\<close>

text \<open>
  \<^verbatim>\<open>SEGNode::get_hash\<close>: the child count in decimal, a bar, then the hashes of the
  children in order.
\<close>

text \<open>Child pointers are never null in the tree: \<^verbatim>\<open>get_hash\<close> dereferences each one.\<close>

fun get_hash :: "SEGNode \<Rightarrow> string" where
  "get_hash (SEGNode i cs) = to_string (length cs) @ ''|'' @ concat (map get_hash cs)"

text \<open>
  Two nodes have the same shape when they have the same number of children and the
  children have the same shape, position by position.
\<close>

fun shape_iso :: "SEGNode \<Rightarrow> SEGNode \<Rightarrow> bool" where
  "shape_iso (SEGNode i cs) (SEGNode j ds) = (length cs = length ds \<and> list_all2 shape_iso cs ds)"

lemma to_string_small: "n < 10 \<Longrightarrow> to_string n = [digit_char n]"
  by (subst to_string.simps) simp

lemma to_string_big: "\<not> n < 10 \<Longrightarrow> to_string n = to_string (n div 10) @ [digit_char (n mod 10)]"
  by (subst to_string.simps) simp

lemma of_char_digit_char: "d < 10 \<Longrightarrow> (of_char (digit_char d) :: nat) = 48 + d"
  by (simp add: digit_char_def)

lemma digit_char_inj:
  assumes "a < 10" "b < 10" "digit_char a = digit_char b"
  shows "a = b"
proof -
  have "(of_char (digit_char a) :: nat) = of_char (digit_char b)"
    using assms(3) by (rule arg_cong)
  then have "48 + a = 48 + b"
    unfolding of_char_digit_char [OF assms(1)] of_char_digit_char [OF assms(2)] .
  then show ?thesis by simp
qed

lemma digit_char_not_bar: "d < 10 \<Longrightarrow> digit_char d \<noteq> CHR ''|''"
  using of_char_digit_char [of d] by auto

lemma to_string_no_bar: "CHR ''|'' \<notin> set (to_string n)"
proof (induction n rule: to_string.induct)
  case (1 n)
  show ?case
  proof (cases "n < 10")
    case True
    then show ?thesis using digit_char_not_bar [of n] by (simp add: to_string_small)
  next
    case False
    have "n mod 10 < 10" by simp
    then have "digit_char (n mod 10) \<noteq> CHR ''|''" by (rule digit_char_not_bar)
    with False 1 show ?thesis by (simp add: to_string_big)
  qed
qed

lemma to_string_nonempty: "to_string n \<noteq> []"
  by (cases "n < 10") (simp_all add: to_string_small to_string_big)

lemma to_string_inj: "to_string n = to_string m \<Longrightarrow> n = m"
proof (induction n arbitrary: m rule: to_string.induct)
  case (1 n)
  show ?case
  proof (cases "n < 10")
    case True
    then have n: "to_string n = [digit_char n]" by (simp add: to_string_small)
    show ?thesis
    proof (cases "m < 10")
      case True
      then have "to_string m = [digit_char m]" by (simp add: to_string_small)
      with n 1(2) \<open>n < 10\<close> True show ?thesis by (auto dest: digit_char_inj)
    next
      case False
      then have "to_string m = to_string (m div 10) @ [digit_char (m mod 10)]"
        by (simp add: to_string_big)
      with n 1(2) to_string_nonempty [of "m div 10"] show ?thesis by (cases "to_string (m div 10)") auto
    qed
  next
    case False
    then have n: "to_string n = to_string (n div 10) @ [digit_char (n mod 10)]"
      by (simp add: to_string_big)
    show ?thesis
    proof (cases "m < 10")
      case True
      then have "to_string m = [digit_char m]" by (simp add: to_string_small)
      with n 1(2) to_string_nonempty [of "n div 10"] show ?thesis by (cases "to_string (n div 10)") auto
    next
      case m: False
      then have "to_string m = to_string (m div 10) @ [digit_char (m mod 10)]"
        by (simp add: to_string_big)
      with n 1(2) have e: "to_string (n div 10) = to_string (m div 10)"
        and d: "digit_char (n mod 10) = digit_char (m mod 10)" by auto
      from 1(1) [OF False e] have "n div 10 = m div 10" .
      moreover from d have "n mod 10 = m mod 10" by (auto dest!: digit_char_inj [rotated 2])
      ultimately show ?thesis by (metis div_mult_mod_eq)
    qed
  qed
qed

lemma split_at_bar:
  assumes "xs @ CHR ''|'' # r = ys @ CHR ''|'' # s" "CHR ''|'' \<notin> set xs" "CHR ''|'' \<notin> set ys"
  shows "xs = ys \<and> r = s"
  using assms
proof (induction xs arbitrary: ys)
  case Nil
  then show ?case by (cases ys) auto
next
  case (Cons x xs)
  then show ?case by (cases ys) auto
qed

lemma get_hash_prefix_free:
  "get_hash a @ r = get_hash b @ s \<Longrightarrow> shape_iso a b \<and> r = s"
proof (induction a arbitrary: b r s)
  case (SEGNode i cs)
  obtain j ds where b: "b = SEGNode j ds" by (cases b)
  from SEGNode.prems b
  have "to_string (length cs) @ CHR ''|'' # (concat (map get_hash cs) @ r)
      = to_string (length ds) @ CHR ''|'' # (concat (map get_hash ds) @ s)" by simp
  from split_at_bar [OF this to_string_no_bar to_string_no_bar]
  have l: "to_string (length cs) = to_string (length ds)"
    and c: "concat (map get_hash cs) @ r = concat (map get_hash ds) @ s" by auto
  from l have len: "length cs = length ds" by (rule to_string_inj)
  from len c SEGNode.IH have "list_all2 shape_iso cs ds \<and> r = s"
  proof (induction cs ds rule: list_induct2)
    case Nil
    then show ?case by simp
  next
    case (Cons x xs y ys)
    from Cons.prems(1) have "get_hash x @ (concat (map get_hash xs) @ r) = get_hash y @ (concat (map get_hash ys) @ s)"
      by simp
    from Cons.prems(2) [OF _ this] have xy: "shape_iso x y"
      and rest: "concat (map get_hash xs) @ r = concat (map get_hash ys) @ s" by auto
    have "list_all2 shape_iso xs ys \<and> r = s"
      by (rule Cons.IH [OF rest]) (rule Cons.prems(2), simp_all)
    with xy show ?case by simp
  qed
  with len b show ?case by simp
qed

lemma shape_iso_get_hash: "shape_iso a b \<Longrightarrow> get_hash a = get_hash b"
proof (induction a arbitrary: b)
  case (SEGNode i cs)
  obtain j ds where b: "b = SEGNode j ds" by (cases b)
  from SEGNode.prems b have len: "length cs = length ds" and all: "list_all2 shape_iso cs ds" by auto
  from all SEGNode.IH have "map get_hash cs = map get_hash ds"
    by (induction cs ds rule: list_all2_induct) auto
  with len b show ?case by simp
qed

text \<open>
  Claim C6. \<^verbatim>\<open>get_hash\<close> is a fingerprint of the shape only: two nodes have equal
  hashes exactly when their child trees are shape-isomorphic, and the hash of a node
  does not change when its book-keeping fields (id, root flag, contexts, the operations
  it was derived from, cost fields) are replaced by any others.
\<close>

theorem get_hash_shape_fingerprint:
  "((get_hash a = get_hash b) = shape_iso a b)
   \<and> get_hash (SEGNode i cs) = get_hash (SEGNode j cs)"
  using get_hash_prefix_free [of a "[]" b "[]"] shape_iso_get_hash [of a b] by auto

section \<open>Emission AST\<close>

text \<open>
  The expression variants of the decoder AST that the emitter and decoder synthesis
  build. \<^verbatim>\<open>Var\<close> carries its name and the name of its type (\<^verbatim>\<open>auto\<close> when only a name
  is given); \<^verbatim>\<open>If\<close> holds the condition and the body. Constructors whose source name
  is taken in HOL carry the suffix \<open>_e\<close>.
\<close>

datatype Expr =
    Id_e string
  | Int_e int
  | Var string string
  | VarDecl Expr
  | Dereference Expr
  | IndexVar Expr Expr
  | Plus_e Expr Expr
  | Equal Expr Expr
  | And Expr Expr
  | Assign Expr Expr
  | Statement Expr
  | Return Expr
  | FunctionCall string "Expr list"
  | If_e Expr Expr
  | StatementBlock "Expr list"

record FunctionDeclaration =
  retType :: string
  function_name :: string
  args :: "Expr list"
  body :: "Expr list"

text \<open>The \<^verbatim>\<open>name\<close> member of a \<^verbatim>\<open>Var\<close>.\<close>

fun name_of :: "Expr \<Rightarrow> string" where
  "name_of (Var n t) = n"
| "name_of _ = []"

section \<open>Semantics emitter synthesis\<close>

text \<open>
  Modelled from the spec: the hasher and comparator of the function table
  (\<^verbatim>\<open>segnode_hash_on_get_hash\<close>, \<^verbatim>\<open>segnode_comp_on_hash\<close>) are declared outside the given
  sources. By their names and by the spec, two nodes are the same key exactly when
  their \<^verbatim>\<open>get_hash\<close> strings are equal, so the table is keyed by that string. The table
  is the list of its entries in insertion order; \<^verbatim>\<open>insert\<close> leaves the table alone when
  the key is present, as \<^verbatim>\<open>std::unordered_map::insert\<close> does.
\<close>

type_synonym func_decls_t = "(string \<times> FunctionDeclaration) list"

definition contains :: "func_decls_t \<Rightarrow> SEGNode \<Rightarrow> bool" where
  "contains tbl node = (map_of tbl (get_hash node) \<noteq> None)"

definition find_decl :: "func_decls_t \<Rightarrow> SEGNode \<Rightarrow> FunctionDeclaration option" where
  "find_decl tbl node = map_of tbl (get_hash node)"

definition insert_decl :: "func_decls_t \<Rightarrow> SEGNode \<Rightarrow> FunctionDeclaration \<Rightarrow> func_decls_t" where
  "insert_decl tbl node d = (if contains tbl node then tbl else tbl @ [(get_hash node, d)])"

text \<open>
  The state that \<^verbatim>\<open>expr_for_node\<close> reaches through references: the function table, the
  counter of \<^verbatim>\<open>UniqueNameStorage\<close> and the caller's stack-offset counter.
\<close>

record emit_state =
  func_decls :: func_decls_t
  counter :: nat
  initial_stack_offset :: int

definition get_unique_var_name :: "emit_state \<Rightarrow> Expr \<times> emit_state" where
  "get_unique_var_name st =
     (let c = counter st + 1
      in (Var (''generated_name_'' @ to_string c) ''auto'', st\<lparr>counter := c\<rparr>))"

definition stack_offset_var :: Expr where
  "stack_offset_var = Var ''stack_offset'' ''int*''"

text \<open>
  The tail of \<^verbatim>\<open>expr_for_node\<close> for a node with \<^verbatim>\<open>fd\<close> set, in its two steps. First: when
  the table has no entry for the node, build the declaration (taking a fresh name for
  it) and insert it. Second: look the node up and return a fresh variable assigned the
  call of the function found. The lookup follows the insertion, so it always finds an
  entry (\<open>contains_declare_function\<close> below); the empty name stands for the dereference
  of the end iterator, which therefore never happens.
\<close>

definition declare_function :: "Expr \<Rightarrow> SEGNode \<Rightarrow> Expr list \<Rightarrow> Expr \<Rightarrow> emit_state \<Rightarrow> emit_state" where
  "declare_function max_size_stack node setup visitor_call_var st =
     (if \<not> contains (func_decls st) node
      then
        (let (fname, st1) = get_unique_var_name st;
             fdb = \<lparr>retType = ''VisRetType'',
                    function_name = name_of fname,
                    args = [VarDecl (Var ''visitor'' ''const VisitorType& ''),
                            VarDecl (Var ''stack'' (''const std::array<'' @ name_of max_size_stack @ ''> &'')),
                            VarDecl stack_offset_var],
                    body = [StatementBlock setup, Return visitor_call_var]\<rparr>
         in st1\<lparr>func_decls := insert_decl (func_decls st1) node fdb\<rparr>)
      else st)"

definition call_declared :: "Expr \<Rightarrow> SEGNode \<Rightarrow> emit_state \<Rightarrow> (Expr \<times> Expr list) \<times> emit_state" where
  "call_declared stack node st =
     (let prev_name = (case find_decl (func_decls st) node of Some d \<Rightarrow> function_name d | None \<Rightarrow> []);
          (prev_func_call_var, st1) = get_unique_var_name st;
          prev_func_call = FunctionCall prev_name [Id_e ''visitor'', stack, stack_offset_var];
          prev_func_assign = Statement (Assign (VarDecl prev_func_call_var) prev_func_call)
      in ((prev_func_call_var, [prev_func_assign]), st1))"

text \<open>
  \<^verbatim>\<open>expr_for_node\<close> with its loop over the children. The loop appends each child's
  variable to \<^verbatim>\<open>local_vars\<close> and each child's setup block, as one element, to \<^verbatim>\<open>setup\<close>.
\<close>

fun expr_for_node :: "Expr \<Rightarrow> Expr \<Rightarrow> SEGNode \<Rightarrow> emit_state \<Rightarrow> (Expr \<times> Expr list) \<times> emit_state"
and expr_for_children :: "Expr \<Rightarrow> Expr \<Rightarrow> SEGNode list \<Rightarrow> Expr list \<Rightarrow> Expr list \<Rightarrow> emit_state
                           \<Rightarrow> (Expr list \<times> Expr list) \<times> emit_state"
where
  "expr_for_node stack max_size_stack (SEGNode i cs) st0 =
     (let (pop_var, st1) = get_unique_var_name st0;
          ((local_vars, setup1), st2) = expr_for_children stack max_size_stack cs [pop_var] [] st1;
          stack_offset_deref = Dereference stack_offset_var;
          st3 = st2\<lparr>initial_stack_offset := initial_stack_offset st2 + 1\<rparr>;
          pop_call = IndexVar stack stack_offset_deref;
          pop_assign = Statement (Assign (VarDecl pop_var) pop_call);
          setup2 = setup1 @ [pop_assign,
                     Statement (Assign stack_offset_deref (Plus_e stack_offset_deref (Int_e 1)))];
          (visitor_call_var, st4) = get_unique_var_name st3;
          visitor_call = FunctionCall ''visitor.call'' local_vars;
          visitor_assign = Statement (Assign (VarDecl visitor_call_var) visitor_call);
          setup3 = setup2 @ [visitor_assign]
      in if \<not> fd i then ((visitor_call_var, setup3), st4)
         else call_declared stack (SEGNode i cs)
                (declare_function max_size_stack (SEGNode i cs) setup3 visitor_call_var st4))"
| "expr_for_children stack max_size_stack [] local_vars setup st = ((local_vars, setup), st)"
| "expr_for_children stack max_size_stack (c # cs) local_vars setup st =
     (let ((lval, set), st1) = expr_for_node stack max_size_stack c st
      in expr_for_children stack max_size_stack cs (local_vars @ [lval]) (setup @ [StatementBlock set]) st1)"


text \<open>
  The calls that \<^verbatim>\<open>SEGGraph::prepare\<close> makes: one call of \<^verbatim>\<open>expr_for_node\<close> after the
  other on the same table and name storage, the results dropped. (\<^verbatim>\<open>prepare\<close> restarts
  the stack-offset counter for each verify-instruction; the counter plays no part in
  the table.)
\<close>

fun register_all :: "Expr \<Rightarrow> Expr \<Rightarrow> SEGNode list \<Rightarrow> emit_state \<Rightarrow> emit_state" where
  "register_all stack max_size_stack [] st = st"
| "register_all stack max_size_stack (node # rest) st =
     register_all stack max_size_stack rest (snd (expr_for_node stack max_size_stack node st))"

text \<open>
  The table only grows at its end, and distinct keys stay distinct.
\<close>

definition grows :: "emit_state \<Rightarrow> emit_state \<Rightarrow> bool" where
  "grows st st' =
     ((\<exists>new. func_decls st' = func_decls st @ new)
      \<and> (distinct (map fst (func_decls st)) \<longrightarrow> distinct (map fst (func_decls st'))))"

lemma grows_refl: "grows st st"
  by (simp add: grows_def)

lemma grows_trans: "grows a b \<Longrightarrow> grows b c \<Longrightarrow> grows a c"
  by (auto simp: grows_def)

lemma grows_same_decls: "func_decls st' = func_decls st \<Longrightarrow> grows st st'"
  by (simp add: grows_def)

lemma get_unique_var_name_decls:
  "get_unique_var_name st = (v, st') \<Longrightarrow> func_decls st' = func_decls st"
  by (auto simp: get_unique_var_name_def Let_def)

lemma contains_iff: "contains tbl node = (get_hash node \<in> set (map fst tbl))"
  by (simp add: contains_def map_of_eq_None_iff)

lemma grows_declare_function:
  "grows st (declare_function mss node setup v st)"
  by (auto simp: declare_function_def grows_def insert_decl_def contains_iff
        get_unique_var_name_def Let_def)

lemma contains_declare_function:
  "contains (func_decls (declare_function mss node setup v st)) node"
  by (auto simp: declare_function_def insert_decl_def contains_iff get_unique_var_name_def Let_def)

lemma declare_function_keeps:
  "contains (func_decls st) node \<Longrightarrow> declare_function mss node setup v st = st"
  by (simp add: declare_function_def)

lemma call_declared_decls:
  "call_declared stack node st = (r, st') \<Longrightarrow> func_decls st' = func_decls st"
  by (auto simp: call_declared_def get_unique_var_name_def Let_def)

lemma call_declared_result:
  "find_decl (func_decls st) node = Some d \<Longrightarrow> call_declared stack node st = ((lval, setup), st') \<Longrightarrow>
   setup = [Statement (Assign (VarDecl lval)
              (FunctionCall (function_name d) [Id_e ''visitor'', stack, stack_offset_var]))]"
  by (auto simp: call_declared_def get_unique_var_name_def Let_def)

lemma grows_expr_for_node_children:
  "grows st (snd (expr_for_node stack mss n st))"
  "grows st (snd (expr_for_children stack mss cs lv su st))"
proof (induction stack mss n st and stack mss cs lv su st rule: expr_for_node_expr_for_children.induct)
  case (1 stack mss i cs st0)
  obtain pop_var st1 where g1: "get_unique_var_name st0 = (pop_var, st1)" by force
  obtain local_vars setup1 st2 where ch: "expr_for_children stack mss cs [pop_var] [] st1 = ((local_vars, setup1), st2)"
    by (metis surj_pair)
  let ?st3 = "st2\<lparr>initial_stack_offset := initial_stack_offset st2 + 1\<rparr>"
  obtain vcv st4 where g4: "get_unique_var_name ?st3 = (vcv, st4)" by force
  have a: "grows st0 st1" using g1 by (auto intro: grows_same_decls dest: get_unique_var_name_decls)
  have b: "grows st1 st2" using 1 [OF g1 [symmetric]] ch by simp
  have c: "grows st2 st4" using g4 by (auto intro!: grows_same_decls dest: get_unique_var_name_decls)
  have abc: "grows st0 st4" using a b c by (blast intro: grows_trans)
  show ?case
  proof (cases "fd i")
    case False
    then show ?thesis using g1 ch g4 abc by (simp add: Let_def)
  next
    case True
    let ?setup3 = "setup1 @ [Statement (Assign (VarDecl pop_var) (IndexVar stack (Dereference stack_offset_var))),
              Statement (Assign (Dereference stack_offset_var) (Plus_e (Dereference stack_offset_var) (Int_e 1)))]
            @ [Statement (Assign (VarDecl vcv) (FunctionCall ''visitor.call'' local_vars))]"
    let ?st5 = "declare_function mss (SEGNode i cs) ?setup3 vcv st4"
    obtain r st6 where cd: "call_declared stack (SEGNode i cs) ?st5 = (r, st6)"
      by (meson surj_pair)
    have d: "grows st4 ?st5" by (rule grows_declare_function)
    have e: "grows ?st5 st6" using cd by (auto intro!: grows_same_decls dest: call_declared_decls)
    have "grows st0 st6" using abc d e by (blast intro: grows_trans)
    then show ?thesis using True g1 ch g4 cd by (simp add: Let_def)
  qed
next
  case (2 stack mss lv su st)
  then show ?case by (simp add: grows_refl)
next
  case (3 stack mss c cs lv su st)
  obtain lval set st1 where n: "expr_for_node stack mss c st = ((lval, set), st1)" by (metis surj_pair)
  have a: "grows st st1" using 3(1) n by simp
  have b: "grows st1 (snd (expr_for_children stack mss cs (lv @ [lval]) (su @ [StatementBlock set]) st1))"
    using 3(2) [OF n [symmetric]] by simp
  show ?case using n a b by (auto intro: grows_trans)
qed


lemma grows_register_all: "grows st (register_all stack mss ns st)"
proof (induction ns arbitrary: st)
  case Nil
  then show ?case by (simp add: grows_refl)
next
  case (Cons n ns)
  have "grows st (snd (expr_for_node stack mss n st))" by (rule grows_expr_for_node_children(1))
  moreover have "grows (snd (expr_for_node stack mss n st))
      (register_all stack mss ns (snd (expr_for_node stack mss n st)))"
    by (rule Cons.IH)
  ultimately show ?case by (auto intro: grows_trans)
qed

lemma grows_map_of:
  "grows st st' \<Longrightarrow> map_of (func_decls st) k = Some d \<Longrightarrow> map_of (func_decls st') k = Some d"
  by (auto simp: grows_def map_add_Some_iff)

lemma expr_for_node_fd:
  assumes fd: "fd i"
    and run: "expr_for_node stack mss (SEGNode i cs) st0 = ((lval, setup), st')"
  shows "\<exists>d. map_of (func_decls st') (get_hash (SEGNode i cs)) = Some d
           \<and> setup = [Statement (Assign (VarDecl lval)
                (FunctionCall (function_name d) [Id_e ''visitor'', stack, stack_offset_var]))]"
proof -
  obtain pop_var st1 where g1: "get_unique_var_name st0 = (pop_var, st1)" by force
  obtain local_vars setup1 st2 where ch: "expr_for_children stack mss cs [pop_var] [] st1 = ((local_vars, setup1), st2)"
    by (metis surj_pair)
  let ?st3 = "st2\<lparr>initial_stack_offset := initial_stack_offset st2 + 1\<rparr>"
  obtain vcv st4 where g4: "get_unique_var_name ?st3 = (vcv, st4)" by force
  let ?setup3 = "setup1 @ [Statement (Assign (VarDecl pop_var) (IndexVar stack (Dereference stack_offset_var))),
            Statement (Assign (Dereference stack_offset_var) (Plus_e (Dereference stack_offset_var) (Int_e 1)))]
          @ [Statement (Assign (VarDecl vcv) (FunctionCall ''visitor.call'' local_vars))]"
  let ?st5 = "declare_function mss (SEGNode i cs) ?setup3 vcv st4"
  have cd: "call_declared stack (SEGNode i cs) ?st5 = ((lval, setup), st')"
    using fd run g1 ch g4 by (simp add: Let_def)
  have "contains (func_decls ?st5) (SEGNode i cs)" by (rule contains_declare_function)
  then obtain d where d: "find_decl (func_decls ?st5) (SEGNode i cs) = Some d"
    by (auto simp: contains_def find_decl_def)
  have "func_decls st' = func_decls ?st5" using cd by (rule call_declared_decls)
  with d call_declared_result [OF d cd] show ?thesis by (auto simp: find_decl_def)
qed

text \<open>
  Claim C9. Every call of \<^verbatim>\<open>expr_for_node\<close>, and so every sequence of calls, keeps
  the keys of the function table distinct (one declaration per key) and keeps every
  entry already recorded. For a
  node with \<^verbatim>\<open>fd\<close> set, the table afterwards has an entry under the node's key and the
  call returns exactly one statement, the call of that entry's function; when the key
  was recorded before the call, that entry is the one recorded before, so no new
  declaration is made for the key.
\<close>

theorem expr_for_node_one_declaration_per_key:
  assumes dist: "distinct (map fst (func_decls st))"
    and run: "expr_for_node stack mss n st = ((lval, setup), st')"
  shows "distinct (map fst (func_decls st'))
       \<and> (\<forall>k d. map_of (func_decls st) k = Some d \<longrightarrow> map_of (func_decls st') k = Some d)
       \<and> (fd (info n) \<longrightarrow>
            (\<exists>d. map_of (func_decls st') (get_hash n) = Some d
                \<and> setup = [Statement (Assign (VarDecl lval)
                     (FunctionCall (function_name d) [Id_e ''visitor'', stack, stack_offset_var]))]
                \<and> (\<forall>d0. map_of (func_decls st) (get_hash n) = Some d0 \<longrightarrow> d = d0)))
       \<and> distinct (map fst (func_decls (register_all stack mss ns st)))
       \<and> (\<forall>k d. map_of (func_decls st) k = Some d \<longrightarrow>
            map_of (func_decls (register_all stack mss ns st)) k = Some d)"
proof -
  have g: "grows st st'" using grows_expr_for_node_children(1) [of st stack mss n] run by simp
  have ga: "grows st (register_all stack mss ns st)" by (rule grows_register_all)
  have e: "distinct (map fst (func_decls (register_all stack mss ns st)))"
    using ga dist by (simp add: grows_def)
  have f: "\<forall>k d. map_of (func_decls st) k = Some d \<longrightarrow>
            map_of (func_decls (register_all stack mss ns st)) k = Some d"
    using ga by (blast intro: grows_map_of)
  have a: "distinct (map fst (func_decls st'))" using g dist by (simp add: grows_def)
  have b: "\<forall>k d. map_of (func_decls st) k = Some d \<longrightarrow> map_of (func_decls st') k = Some d"
    using g by (blast intro: grows_map_of)
  have c: "fd (info n) \<longrightarrow>
            (\<exists>d. map_of (func_decls st') (get_hash n) = Some d
                \<and> setup = [Statement (Assign (VarDecl lval)
                     (FunctionCall (function_name d) [Id_e ''visitor'', stack, stack_offset_var]))]
                \<and> (\<forall>d0. map_of (func_decls st) (get_hash n) = Some d0 \<longrightarrow> d = d0))"
  proof
    assume f: "fd (info n)"
    obtain i cs where n: "n = SEGNode i cs" by (cases n)
    from expr_for_node_fd [of i stack mss cs st lval "setup" st'] f run n
    obtain d where d: "map_of (func_decls st') (get_hash n) = Some d"
      and s: "setup = [Statement (Assign (VarDecl lval)
                     (FunctionCall (function_name d) [Id_e ''visitor'', stack, stack_offset_var]))]"
      by auto
    have "\<forall>d0. map_of (func_decls st) (get_hash n) = Some d0 \<longrightarrow> d = d0"
      using b d by auto
    with d s show "\<exists>d. map_of (func_decls st') (get_hash n) = Some d
                \<and> setup = [Statement (Assign (VarDecl lval)
                     (FunctionCall (function_name d) [Id_e ''visitor'', stack, stack_offset_var]))]
                \<and> (\<forall>d0. map_of (func_decls st) (get_hash n) = Some d0 \<longrightarrow> d = d0)"
      by blast
  qed
  from a b c e f show ?thesis by blast
qed


text \<open>
  Two leaves of equal shape with different ids. The first call declares a function for
  the shape; the second call, for the other leaf, calls that function.
\<close>

definition example_info :: "string \<Rightarrow> bool \<Rightarrow> InstructionProjection list \<Rightarrow> bool \<Rightarrow> int \<Rightarrow> seg_info" where
  "example_info name root ctxs f cnt =
     \<lparr>node_id = name, isRoot = root, valid_for_contexts = ctxs, roots = [], specializeble = True,
      fd = f, inline_cost = 0, subtree_count = cnt\<rparr>"

definition empty_state :: emit_state where
  "empty_state = \<lparr>func_decls = [], counter = 0, initial_stack_offset = 0\<rparr>"

definition node_a :: SEGNode where
  "node_a = SEGNode (example_info ''a'' False [] True 1) []"

definition node_b :: SEGNode where
  "node_b = SEGNode (example_info ''b'' True [] True 1) []"

definition after_first_call :: emit_state where
  "after_first_call = snd (expr_for_node (Var ''stack'' ''auto'') (Var ''MAX_SIZE_INSTR'' ''auto'') node_a empty_state)"


theorem expr_for_node_one_declaration_per_key_witness:
  "distinct (map fst (func_decls after_first_call))
   \<and> expr_for_node (Var ''stack'' ''auto'') (Var ''MAX_SIZE_INSTR'' ''auto'') node_b after_first_call =
       ((Var ''generated_name_7'' ''auto'',
         [Statement (Assign (VarDecl (Var ''generated_name_7'' ''auto''))
            (FunctionCall ''generated_name_3'' [Id_e ''visitor'', Var ''stack'' ''auto'', stack_offset_var]))]),
        after_first_call\<lparr>counter := 7, initial_stack_offset := 2\<rparr>)
   \<and> fd (info node_b)
   \<and> get_hash node_b = get_hash node_a
   \<and> distinct (map fst (func_decls (after_first_call\<lparr>counter := 7, initial_stack_offset := 2\<rparr>)))
   \<and> (\<exists>d. map_of (func_decls after_first_call) (get_hash node_a) = Some d
          \<and> map_of (func_decls (after_first_call\<lparr>counter := 7, initial_stack_offset := 2\<rparr>)) (get_hash node_b) = Some d
          \<and> function_name d = ''generated_name_3'')"
proof -
  have d: "distinct (map fst (func_decls after_first_call))"
    by code_simp
  have r: "expr_for_node (Var ''stack'' ''auto'') (Var ''MAX_SIZE_INSTR'' ''auto'') node_b after_first_call =
       ((Var ''generated_name_7'' ''auto'',
         [Statement (Assign (VarDecl (Var ''generated_name_7'' ''auto''))
            (FunctionCall ''generated_name_3'' [Id_e ''visitor'', Var ''stack'' ''auto'', stack_offset_var]))]),
        after_first_call\<lparr>counter := 7, initial_stack_offset := 2\<rparr>)"
    by code_simp
  have f: "fd (info node_b)" by (simp add: node_b_def example_info_def)
  have h: "get_hash node_b = get_hash node_a" by (simp add: node_a_def node_b_def)
  have k: "map_of (func_decls after_first_call) (get_hash node_a)
             = Some (snd (hd (func_decls after_first_call)))" by code_simp
  have n: "function_name (snd (hd (func_decls after_first_call))) = ''generated_name_3''"
    by code_simp
  note t = expr_for_node_one_declaration_per_key [OF d r]
  from t f h k n d r show ?thesis by auto
qed

section \<open>Decoder synthesis\<close>

text \<open>
  \<^verbatim>\<open>get_nodes_by_vi\<close> reads the node pool: every (context, node) pair of a root node
  whose context belongs to the verify-instruction, in pool order; an empty answer
  fails the check.
\<close>

definition get_nodes_by_vi :: "SEGNode list \<Rightarrow> nat \<Rightarrow> error + (InstructionProjection \<times> SEGNode) list" where
  "get_nodes_by_vi pool v =
     (let m = concat (map (\<lambda>n. map (\<lambda>root. (root, n))
                                (filter (\<lambda>root. vi root = v \<and> isRoot (info n)) (valid_for_contexts (info n))))
                          pool)
      in if length m \<noteq> 0 then Inr m else Inl (CheckFailed ''m.size() != 0''))"

text \<open>
  The lock-step walk over the circuit subtree and the SEG subtree
  (\<^verbatim>\<open>non_unique_dfs_with_choices\<close>, \<^verbatim>\<open>non_unique_dfs\<close>, \<^verbatim>\<open>tuple_generators\<close>) is declared
  outside the given sources. Its result, the names of the operations it yields in
  order, is the argument \<open>tandem\<close>. Each name becomes one push statement.
\<close>

definition push_statement :: "string \<Rightarrow> string \<Rightarrow> Expr" where
  "push_statement stack_counter op_name =
     Statement (Assign (Id_e (''stack['' @ stack_counter @ ''++]'')) (Id_e op_name))"

text \<open>
  The loop that folds the select choices into one condition: the first comparison
  starts the block, each later one replaces the last element by its conjunction with
  the comparison.
\<close>

fun guard_of :: "SelectChoice list \<Rightarrow> Expr list \<Rightarrow> Expr list" where
  "guard_of [] b = b"
| "guard_of (c # cs) b =
     (let indx = Var (''select_id_'' @ to_string (sel_id (sel c))) ''auto'';
          choice = Int_e (int (chosen_idx c));
          eq = Equal indx choice
      in guard_of cs (if b \<noteq> [] then butlast b @ [And (last b) eq] else b @ [eq]))"

text \<open>
  The lookup of the emitter function, written out in both branches of the source:
  \<^verbatim>\<open>unreachable()\<close> when the node has no entry, the call statement otherwise.
\<close>

definition call_emitter :: "func_decls_t \<Rightarrow> string \<Rightarrow> SEGNode \<Rightarrow> error + Expr" where
  "call_emitter tbl stack_counter node =
     (case find_decl tbl node of
        None \<Rightarrow> Inl (Unreachable ''Trying to emit for a function which wasn't registered'')
      | Some sem_entry \<Rightarrow>
          Inr (Statement (FunctionCall (function_name sem_entry) [Id_e ''stack'', Id_e stack_counter])))"

definition get_expression_for_projection ::
  "func_decls_t \<Rightarrow> (InstructionProjection \<Rightarrow> SEGNode \<Rightarrow> string list) \<Rightarrow> string
     \<Rightarrow> InstructionProjection \<Rightarrow> SEGNode \<Rightarrow> error + Expr" where
  "get_expression_for_projection tbl tandem stack_counter instr_proj node =
     (let block = map (push_statement stack_counter) (tandem instr_proj node)
      in if length (select_choices instr_proj) > 0
         then
           (let b = guard_of (select_choices instr_proj) []
            in case call_emitter tbl stack_counter node of
                 Inl e \<Rightarrow> Inl e
               | Inr funcCall \<Rightarrow> Inr (If_e (StatementBlock b) (StatementBlock (block @ [funcCall]))))
         else
           (case call_emitter tbl stack_counter node of
              Inl e \<Rightarrow> Inl e
            | Inr funcCall \<Rightarrow> Inr (StatementBlock (block @ [funcCall]))))"

text \<open>
  \<^verbatim>\<open>print_decoder\<close>: the projections of a verify-instruction are grouped by their root
  operation; the keys are visited in the order of the \<^verbatim>\<open>std::set\<close> (ascending addresses),
  the projections of a key in insertion order. A key with one projection takes the
  branch for a single key, any other key the loop over its range; both insert what
  \<^verbatim>\<open>get_expression_for_projection\<close> returns.
\<close>

fun body_insert_all ::
  "func_decls_t \<Rightarrow> (InstructionProjection \<Rightarrow> SEGNode \<Rightarrow> string list) \<Rightarrow> string
     \<Rightarrow> (InstructionProjection \<times> SEGNode) list \<Rightarrow> Expr list \<Rightarrow> error + Expr list" where
  "body_insert_all tbl tandem sc [] stmts = Inr stmts"
| "body_insert_all tbl tandem sc ((instr_proj, node) # rest) stmts =
     (case get_expression_for_projection tbl tandem sc instr_proj node of
        Inl e \<Rightarrow> Inl e
      | Inr expr \<Rightarrow> body_insert_all tbl tandem sc rest (stmts @ [expr]))"

definition equal_range :: "(InstructionProjection \<times> SEGNode) list \<Rightarrow> nat \<Rightarrow> (InstructionProjection \<times> SEGNode) list" where
  "equal_range paths key = filter (\<lambda>p. root_in_vi (fst p) = key) paths"

definition proj_keys :: "(InstructionProjection \<times> SEGNode) list \<Rightarrow> nat list" where
  "proj_keys paths = sort (remdups (map (\<lambda>p. root_in_vi (fst p)) paths))"

definition emit_group ::
  "func_decls_t \<Rightarrow> (InstructionProjection \<Rightarrow> SEGNode \<Rightarrow> string list) \<Rightarrow> string
     \<Rightarrow> (InstructionProjection \<times> SEGNode) list \<Rightarrow> Expr list \<Rightarrow> error + Expr list" where
  "emit_group tbl tandem start_counter grp stmts =
     (if length grp = 1
      then (case grp of
              (instr_proj, node) # _ \<Rightarrow>
                (case get_expression_for_projection tbl tandem start_counter instr_proj node of
                   Inl e \<Rightarrow> Inl e
                 | Inr expr \<Rightarrow> Inr (stmts @ [expr]))
            | [] \<Rightarrow> Inr stmts)
      else body_insert_all tbl tandem start_counter grp stmts)"

fun emit_keys ::
  "func_decls_t \<Rightarrow> (InstructionProjection \<Rightarrow> SEGNode \<Rightarrow> string list)
     \<Rightarrow> (InstructionProjection \<times> SEGNode) list \<Rightarrow> nat list \<Rightarrow> Expr list \<Rightarrow> error + Expr list" where
  "emit_keys tbl tandem paths [] stmts = Inr stmts"
| "emit_keys tbl tandem paths (key # keys) stmts =
     (case emit_group tbl tandem ''stack_counter'' (equal_range paths key) stmts of
        Inl e \<Rightarrow> Inl e
      | Inr stmts1 \<Rightarrow> emit_keys tbl tandem paths keys stmts1)"

definition decoder_for_vi ::
  "func_decls_t \<Rightarrow> (InstructionProjection \<Rightarrow> SEGNode \<Rightarrow> string list) \<Rightarrow> SEGNode list \<Rightarrow> nat
     \<Rightarrow> error + FunctionDeclaration" where
  "decoder_for_vi tbl tandem pool v =
     (case get_nodes_by_vi pool v of
        Inl e \<Rightarrow> Inl e
      | Inr paths \<Rightarrow>
          (case emit_keys tbl tandem paths (proj_keys paths)
                  [Assign (VarDecl (Var ''stack_counter'' ''auto'')) (Int_e 0)] of
             Inl e \<Rightarrow> Inl e
           | Inr stmts1 \<Rightarrow>
               Inr \<lparr>retType = ''void'', function_name = ''decoder_for_vi'' @ to_string v,
                    args = [], body = stmts1\<rparr>))"

fun print_decoder ::
  "func_decls_t \<Rightarrow> (InstructionProjection \<Rightarrow> SEGNode \<Rightarrow> string list) \<Rightarrow> SEGNode list \<Rightarrow> nat list
     \<Rightarrow> error + FunctionDeclaration list" where
  "print_decoder tbl tandem pool [] = Inr []"
| "print_decoder tbl tandem pool (v # vs) =
     (case decoder_for_vi tbl tandem pool v of
        Inl e \<Rightarrow> Inl e
      | Inr d \<Rightarrow>
          (case print_decoder tbl tandem pool vs of
             Inl e \<Rightarrow> Inl e
           | Inr ds \<Rightarrow> Inr (d # ds)))"

text \<open>
  Modelled from the spec: the construction of the projections
  (\<^verbatim>\<open>UnfinishedProjection::fully_extend\<close>) is declared outside the given sources. By the
  spec, a projection that meets a select it has not resolved yet forks into one copy per
  possible index value; every copy keeps the verify-instruction and the root operation,
  records the choice and continues. A select with \<open>bits\<close> index bits has \<open>2 ^ bits\<close> value
  operands, the factor \<^verbatim>\<open>print_decoder\<close> multiplies into its \<^verbatim>\<open>target_count\<close>; its index is
  an operation, and the width of an operation is at least one bit. So among the
  projections gathered for a verify-instruction, every choice of a projection has, for
  every index value of its select, a projection with the same root, the same choices
  before it and that index value chosen.
\<close>

definition fork_sibling ::
  "(InstructionProjection \<times> SEGNode) list \<Rightarrow> InstructionProjection \<Rightarrow> nat \<Rightarrow> nat \<Rightarrow> bool" where
  "fork_sibling paths p j i =
     list_ex (\<lambda>q. vi (fst q) = vi p \<and> root_in_vi (fst q) = root_in_vi p
                 \<and> j < length (select_choices (fst q))
                 \<and> take j (select_choices (fst q)) = take j (select_choices p)
                 \<and> select_choices (fst q) ! j = \<lparr>sel = sel (select_choices p ! j), chosen_idx = i\<rparr>)
       paths"

definition fork_closed :: "(InstructionProjection \<times> SEGNode) list \<Rightarrow> bool" where
  "fork_closed paths =
     list_all (\<lambda>q. list_all (\<lambda>j. 1 \<le> bits (sel (select_choices (fst q) ! j))
                                \<and> list_all (fork_sibling paths (fst q) j)
                                     [0 ..< 2 ^ bits (sel (select_choices (fst q) ! j))])
                     [0 ..< length (select_choices (fst q))])
       paths"

text \<open>
  The statements that the iteration of \<^verbatim>\<open>print_decoder\<close> for one key inserts into the body.
\<close>

definition emitted_for_key ::
  "func_decls_t \<Rightarrow> (InstructionProjection \<Rightarrow> SEGNode \<Rightarrow> string list)
     \<Rightarrow> (InstructionProjection \<times> SEGNode) list \<Rightarrow> nat \<Rightarrow> Expr list" where
  "emitted_for_key tbl tandem paths key =
     (case emit_group tbl tandem ''stack_counter'' (equal_range paths key) [] of
        Inl e \<Rightarrow> []
      | Inr es \<Rightarrow> es)"

lemma fork_closed_single_no_choice:
  assumes fc: "fork_closed paths"
    and single: "equal_range paths key = [(p, node)]"
  shows "select_choices p = []"
proof (rule ccontr)
  assume ne: "select_choices p \<noteq> []"
  have mem: "(p, node) \<in> set (equal_range paths key)" using single by simp
  then have inp: "(p, node) \<in> set paths" and key: "root_in_vi p = key"
    by (auto simp: equal_range_def)
  let ?c = "select_choices p ! 0"
  let ?i = "if chosen_idx ?c = 0 then 1 else (0::nat)"
  from ne have j: "0 < length (select_choices p)" by simp
  from fc inp j have b: "1 \<le> bits (sel ?c)"
    and all: "list_all (fork_sibling paths p 0) [0 ..< 2 ^ bits (sel ?c)]"
    by (auto simp: fork_closed_def list_all_iff)
  from b have "(2::nat) ^ 1 \<le> 2 ^ bits (sel ?c)" by (intro power_increasing) simp_all
  then have "?i < 2 ^ bits (sel ?c)" by simp
  with all have "fork_sibling paths p 0 ?i" by (simp add: list_all_iff)
  then obtain q n where q: "(q, n) \<in> set paths" and r: "root_in_vi q = root_in_vi p"
    and c: "select_choices q ! 0 = \<lparr>sel = sel ?c, chosen_idx = ?i\<rparr>"
    by (auto simp: fork_sibling_def list_ex_iff)
  from q r key have "(q, n) \<in> set (equal_range paths key)" by (simp add: equal_range_def)
  with single have "q = p" by simp
  with c have "select_choices p ! 0 = \<lparr>sel = sel ?c, chosen_idx = ?i\<rparr>" by simp
  then have "chosen_idx (select_choices p ! 0) = chosen_idx \<lparr>sel = sel ?c, chosen_idx = ?i\<rparr>"
    by (rule arg_cong)
  then have "chosen_idx ?c = ?i" by simp
  then show False by (cases "chosen_idx ?c = 0") simp_all
qed

lemma body_insert_all_append:
  "body_insert_all tbl tandem sc grp stmts =
     (case body_insert_all tbl tandem sc grp [] of Inl e \<Rightarrow> Inl e | Inr es \<Rightarrow> Inr (stmts @ es))"
proof (induction grp arbitrary: stmts)
  case Nil
  then show ?case by simp
next
  case (Cons x grp)
  obtain p node where x: "x = (p, node)" by (cases x)
  show ?case
  proof (cases "get_expression_for_projection tbl tandem sc p node")
    case (Inl e)
    then show ?thesis by (simp add: x)
  next
    case (Inr expr)
    have "body_insert_all tbl tandem sc (x # grp) stmts = body_insert_all tbl tandem sc grp (stmts @ [expr])"
      by (simp add: x Inr)
    also have "\<dots> = (case body_insert_all tbl tandem sc grp [] of Inl e \<Rightarrow> Inl e | Inr es \<Rightarrow> Inr ((stmts @ [expr]) @ es))"
      by (rule Cons.IH)
    finally have l: "body_insert_all tbl tandem sc (x # grp) stmts =
        (case body_insert_all tbl tandem sc grp [] of Inl e \<Rightarrow> Inl e | Inr es \<Rightarrow> Inr (stmts @ expr # es))"
      by (simp split: sum.splits)
    have "body_insert_all tbl tandem sc (x # grp) [] = body_insert_all tbl tandem sc grp [expr]"
      by (simp add: x Inr)
    also have "\<dots> = (case body_insert_all tbl tandem sc grp [] of Inl e \<Rightarrow> Inl e | Inr es \<Rightarrow> Inr ([expr] @ es))"
      by (rule Cons.IH)
    finally have r: "body_insert_all tbl tandem sc (x # grp) [] =
        (case body_insert_all tbl tandem sc grp [] of Inl e \<Rightarrow> Inl e | Inr es \<Rightarrow> Inr (expr # es))"
      by (simp split: sum.splits)
    show ?thesis unfolding l r by (simp split: sum.splits)
  qed
qed

lemma emit_group_append:
  "emit_group tbl tandem sc grp stmts =
     (case emit_group tbl tandem sc grp [] of Inl e \<Rightarrow> Inl e | Inr es \<Rightarrow> Inr (stmts @ es))"
proof (cases "length grp = 1")
  case True
  then obtain x where "grp = [x]" by (cases grp) auto
  then show ?thesis by (simp add: emit_group_def split: prod.splits sum.splits)
next
  case False
  then show ?thesis using body_insert_all_append [of tbl tandem sc grp stmts]
    by (simp add: emit_group_def)
qed

lemma emit_keys_concat:
  assumes "emit_keys tbl tandem paths keys stmts = Inr out"
  shows "out = stmts @ concat (map (emitted_for_key tbl tandem paths) keys)
       \<and> (\<forall>key \<in> set keys. emit_group tbl tandem ''stack_counter'' (equal_range paths key) []
            = Inr (emitted_for_key tbl tandem paths key))"
  using assms
proof (induction keys arbitrary: stmts)
  case Nil
  then show ?case by simp
next
  case (Cons key keys)
  let ?g = "emit_group tbl tandem ''stack_counter'' (equal_range paths key)"
  have ap: "?g stmts = (case ?g [] of Inl e \<Rightarrow> Inl e | Inr es \<Rightarrow> Inr (stmts @ es))"
    by (rule emit_group_append)
  obtain es where es: "?g [] = Inr es"
    and rest: "emit_keys tbl tandem paths keys (stmts @ es) = Inr out"
  proof (cases "?g []")
    case (Inl e)
    with ap have "?g stmts = Inl e" by simp
    with Cons.prems show ?thesis by simp
  next
    case (Inr es)
    with ap have "?g stmts = Inr (stmts @ es)" by simp
    with Cons.prems have "emit_keys tbl tandem paths keys (stmts @ es) = Inr out" by simp
    with Inr that show ?thesis by blast
  qed
  from es have ek: "emitted_for_key tbl tandem paths key = es" by (simp add: emitted_for_key_def)
  from Cons.IH [OF rest] es ek show ?case by simp
qed

lemma print_decoder_nth:
  assumes "print_decoder tbl tandem pool vis = Inr ds"
  shows "length ds = length vis"
    and "\<forall>i < length vis. decoder_for_vi tbl tandem pool (vis ! i) = Inr (ds ! i)"
  using assms
proof (induction vis arbitrary: ds)
  case Nil
  { case 1 then show ?case by simp }
  { case 2 then show ?case by simp }
next
  case (Cons v vis)
  { case 1
    then obtain d ds' where "decoder_for_vi tbl tandem pool v = Inr d"
      and r: "print_decoder tbl tandem pool vis = Inr ds'" and ds: "ds = d # ds'"
      by (auto split: sum.splits)
    with Cons.IH(1) [OF r] show ?case by simp }
  { case 2
    then obtain d ds' where d: "decoder_for_vi tbl tandem pool v = Inr d"
      and r: "print_decoder tbl tandem pool vis = Inr ds'" and ds: "ds = d # ds'"
      by (auto split: sum.splits)
    show ?case
    proof (intro allI impI)
      fix i assume "i < length (v # vis)"
      then show "decoder_for_vi tbl tandem pool ((v # vis) ! i) = Inr (ds ! i)"
        using d ds Cons.IH(2) [OF r] by (cases i) auto
    qed }
qed

lemma proj_keys_set: "set (proj_keys paths) = (\<lambda>p. root_in_vi (fst p)) ` set paths"
  by (simp add: proj_keys_def)

text \<open>
  Claim C2. For every verify-instruction of a run of \<^verbatim>\<open>print_decoder\<close> whose projections
  are closed under forks, the body of its decoder is the declaration of the stack
  counter followed by the code of the keys in order, and for every key whose group
  holds exactly one projection that projection made no select choice, the node has an
  emitter function and the code of the key is one unconditional block: the push
  sequence followed by the call of that function, with no \<^verbatim>\<open>if\<close> around it.
\<close>

theorem single_projection_group_unguarded:
  assumes run: "print_decoder tbl tandem pool vis = Inr ds"
    and i: "i < length vis"
    and paths: "get_nodes_by_vi pool (vis ! i) = Inr paths"
    and forks: "fork_closed paths"
  shows "length ds = length vis
       \<and> body (ds ! i) =
           Assign (VarDecl (Var ''stack_counter'' ''auto'')) (Int_e 0)
             # concat (map (emitted_for_key tbl tandem paths) (proj_keys paths))
       \<and> (\<forall>key p node. equal_range paths key = [(p, node)] \<longrightarrow>
            key \<in> set (proj_keys paths)
            \<and> select_choices p = []
            \<and> (\<exists>f. find_decl tbl node = Some f
                 \<and> emitted_for_key tbl tandem paths key =
                     [StatementBlock
                        (map (push_statement ''stack_counter'') (tandem p node)
                           @ [Statement (FunctionCall (function_name f)
                                [Id_e ''stack'', Id_e ''stack_counter''])])]))"
proof -
  from print_decoder_nth [OF run] i have len: "length ds = length vis"
    and d: "decoder_for_vi tbl tandem pool (vis ! i) = Inr (ds ! i)" by simp_all
  from d paths obtain out where
    out: "emit_keys tbl tandem paths (proj_keys paths)
            [Assign (VarDecl (Var ''stack_counter'' ''auto'')) (Int_e 0)] = Inr out"
    by (cases "emit_keys tbl tandem paths (proj_keys paths)
            [Assign (VarDecl (Var ''stack_counter'' ''auto'')) (Int_e 0)]")
       (simp_all add: decoder_for_vi_def)
  from d paths out have "ds ! i = \<lparr>retType = ''void'',
      function_name = ''decoder_for_vi'' @ to_string (vis ! i), args = [], body = out\<rparr>"
    by (simp add: decoder_for_vi_def)
  then have "body (ds ! i) = body \<lparr>retType = ''void'',
      function_name = ''decoder_for_vi'' @ to_string (vis ! i), args = [], body = out\<rparr>"
    by (rule arg_cong)
  then have b: "body (ds ! i) = out" by simp
  from emit_keys_concat [OF out] b
  have bd: "body (ds ! i) =
           Assign (VarDecl (Var ''stack_counter'' ''auto'')) (Int_e 0)
             # concat (map (emitted_for_key tbl tandem paths) (proj_keys paths))"
    and ok: "\<And>key. key \<in> set (proj_keys paths) \<Longrightarrow>
           emit_group tbl tandem ''stack_counter'' (equal_range paths key) []
            = Inr (emitted_for_key tbl tandem paths key)"
    by simp_all
  have single: "\<forall>key p node. equal_range paths key = [(p, node)] \<longrightarrow>
            key \<in> set (proj_keys paths)
            \<and> select_choices p = []
            \<and> (\<exists>f. find_decl tbl node = Some f
                 \<and> emitted_for_key tbl tandem paths key =
                     [StatementBlock
                        (map (push_statement ''stack_counter'') (tandem p node)
                           @ [Statement (FunctionCall (function_name f)
                                [Id_e ''stack'', Id_e ''stack_counter''])])])"
  proof (intro allI impI)
    fix key p node
    assume s: "equal_range paths key = [(p, node)]"
    then have "(p, node) \<in> set (equal_range paths key)" by simp
    then have "(p, node) \<in> set paths" and "root_in_vi p = key" by (auto simp: equal_range_def)
    then have k: "key \<in> set (proj_keys paths)" by (force simp: proj_keys_set)
    have nc: "select_choices p = []" by (rule fork_closed_single_no_choice [OF forks s])
    obtain expr where ge: "get_expression_for_projection tbl tandem ''stack_counter'' p node = Inr expr"
      and em: "emitted_for_key tbl tandem paths key = [expr]"
      using ok [OF k] s
      by (cases "get_expression_for_projection tbl tandem ''stack_counter'' p node")
         (simp_all add: emit_group_def)
    from ge nc obtain fc where ce: "call_emitter tbl ''stack_counter'' node = Inr fc"
      and ex: "expr = StatementBlock (map (push_statement ''stack_counter'') (tandem p node) @ [fc])"
      by (cases "call_emitter tbl ''stack_counter'' node")
         (simp_all add: get_expression_for_projection_def Let_def)
    from ce obtain f where f: "find_decl tbl node = Some f"
      and fc: "fc = Statement (FunctionCall (function_name f) [Id_e ''stack'', Id_e ''stack_counter''])"
      by (cases "find_decl tbl node") (simp_all add: call_emitter_def)
    from em ex fc have "emitted_for_key tbl tandem paths key =
                     [StatementBlock
                        (map (push_statement ''stack_counter'') (tandem p node)
                           @ [Statement (FunctionCall (function_name f)
                                [Id_e ''stack'', Id_e ''stack_counter''])])]"
      by simp
    with k nc f show "key \<in> set (proj_keys paths)
            \<and> select_choices p = []
            \<and> (\<exists>f. find_decl tbl node = Some f
                 \<and> emitted_for_key tbl tandem paths key =
                     [StatementBlock
                        (map (push_statement ''stack_counter'') (tandem p node)
                           @ [Statement (FunctionCall (function_name f)
                                [Id_e ''stack'', Id_e ''stack_counter''])])])"
      by simp
  qed
  from len bd single show ?thesis by (intro conjI)
qed

text \<open>
  A verify-instruction with two keys. Key 5 has one projection; key 9 has the two forks
  of a projection through the one-bit select 7. The nodes are leaves, for which the
  table of \<open>after_first_call\<close> holds a function. The code of key 5 is unguarded, the code
  of key 9 is one guarded block per fork.
\<close>

definition plain_projection :: InstructionProjection where
  "plain_projection = \<lparr>vi = 0, root_in_vi = 5, select_choices = []\<rparr>"

definition example_tandem :: "InstructionProjection \<Rightarrow> SEGNode \<Rightarrow> string list" where
  "example_tandem p n = [''reg_constraint_5'']"

definition fork_zero :: InstructionProjection where
  "fork_zero = \<lparr>vi = 0, root_in_vi = 9,
      select_choices = [\<lparr>sel = \<lparr>sel_id = 7, bits = 1\<rparr>, chosen_idx = 0\<rparr>]\<rparr>"

definition fork_one :: InstructionProjection where
  "fork_one = \<lparr>vi = 0, root_in_vi = 9,
      select_choices = [\<lparr>sel = \<lparr>sel_id = 7, bits = 1\<rparr>, chosen_idx = 1\<rparr>]\<rparr>"

definition node_p :: SEGNode where
  "node_p = SEGNode (example_info ''p'' True [plain_projection] True 1) []"

definition node_q :: SEGNode where
  "node_q = SEGNode (example_info ''q'' True [fork_zero] True 1) []"

definition node_r :: SEGNode where
  "node_r = SEGNode (example_info ''r'' True [fork_one] True 1) []"

definition decoder_pool :: "SEGNode list" where
  "decoder_pool = [node_q, node_p, node_r]"

definition decoder_paths :: "(InstructionProjection \<times> SEGNode) list" where
  "decoder_paths = [(fork_zero, node_q), (plain_projection, node_p), (fork_one, node_r)]"

definition example_decoder :: FunctionDeclaration where
  "example_decoder =
     \<lparr>retType = ''void'', function_name = ''decoder_for_vi0'', args = [],
      body =
        [Assign (VarDecl (Var ''stack_counter'' ''auto'')) (Int_e 0),
         StatementBlock
           [Statement (Assign (Id_e ''stack[stack_counter++]'') (Id_e ''reg_constraint_5'')),
            Statement (FunctionCall ''generated_name_3'' [Id_e ''stack'', Id_e ''stack_counter''])],
         If_e (StatementBlock [Equal (Var ''select_id_7'' ''auto'') (Int_e 0)])
           (StatementBlock
              [Statement (Assign (Id_e ''stack[stack_counter++]'') (Id_e ''reg_constraint_5'')),
               Statement (FunctionCall ''generated_name_3'' [Id_e ''stack'', Id_e ''stack_counter''])]),
         If_e (StatementBlock [Equal (Var ''select_id_7'' ''auto'') (Int_e 1)])
           (StatementBlock
              [Statement (Assign (Id_e ''stack[stack_counter++]'') (Id_e ''reg_constraint_5'')),
               Statement (FunctionCall ''generated_name_3'' [Id_e ''stack'', Id_e ''stack_counter''])])]\<rparr>"

theorem single_projection_group_unguarded_witness:
  "print_decoder (func_decls after_first_call) example_tandem decoder_pool [0] = Inr [example_decoder]
   \<and> get_nodes_by_vi decoder_pool 0 = Inr decoder_paths
   \<and> fork_closed decoder_paths
   \<and> proj_keys decoder_paths = [5, 9]
   \<and> equal_range decoder_paths 5 = [(plain_projection, node_p)]
   \<and> emitted_for_key (func_decls after_first_call) example_tandem decoder_paths 5 =
       [StatementBlock
          [Statement (Assign (Id_e ''stack[stack_counter++]'') (Id_e ''reg_constraint_5'')),
           Statement (FunctionCall ''generated_name_3'' [Id_e ''stack'', Id_e ''stack_counter''])]]"
proof -
  have run: "print_decoder (func_decls after_first_call) example_tandem decoder_pool [0] = Inr [example_decoder]"
    by code_simp
  have i: "(0::nat) < length [0::nat]" by simp
  have paths: "get_nodes_by_vi decoder_pool ([0] ! 0) = Inr decoder_paths" by code_simp
  have forks: "fork_closed decoder_paths" by code_simp
  have keys: "proj_keys decoder_paths = [5, 9]" by code_simp
  have single: "equal_range decoder_paths 5 = [(plain_projection, node_p)]" by code_simp
  have f: "find_decl (func_decls after_first_call) node_p = Some (snd (hd (func_decls after_first_call)))"
    by code_simp
  have n: "function_name (snd (hd (func_decls after_first_call))) = ''generated_name_3''"
    by code_simp
  note t = single_projection_group_unguarded [OF run i paths forks]
  from t [THEN conjunct2, THEN conjunct2, rule_format, OF single] f n
  have e: "emitted_for_key (func_decls after_first_call) example_tandem decoder_paths 5 =
       [StatementBlock
          [Statement (Assign (Id_e ''stack[stack_counter++]'') (Id_e ''reg_constraint_5'')),
           Statement (FunctionCall ''generated_name_3'' [Id_e ''stack'', Id_e ''stack_counter''])]]"
    by (auto simp: example_tandem_def push_statement_def)
  from paths have paths0: "get_nodes_by_vi decoder_pool 0 = Inr decoder_paths" by simp
  from run paths0 forks keys single e show ?thesis by (intro conjI)
qed

text \<open>
  The guard itself is decided by the choices of the projection, not by the size of its
  group: a list of projections that is not closed under forks, a projection with a
  choice on a one-bit select and without the other fork, gets a guarded block for its
  key.
\<close>

definition guarded_projection :: InstructionProjection where
  "guarded_projection =
     \<lparr>vi = 0, root_in_vi = 5,
      select_choices = [\<lparr>sel = \<lparr>sel_id = 7, bits = 1\<rparr>, chosen_idx = 0\<rparr>]\<rparr>"

lemma lone_fork_is_guarded:
  "\<not> fork_closed [(guarded_projection, node_b)]
   \<and> emit_group (func_decls after_first_call) example_tandem ''stack_counter''
       [(guarded_projection, node_b)] [] =
     Inr [If_e (StatementBlock [Equal (Var ''select_id_7'' ''auto'') (Int_e 0)])
            (StatementBlock
               [Statement (Assign (Id_e ''stack[stack_counter++]'') (Id_e ''reg_constraint_5'')),
                Statement (FunctionCall ''generated_name_3'' [Id_e ''stack'', Id_e ''stack_counter''])])]"
  by code_simp

section \<open>The stack bound\<close>

text \<open>
  \<^verbatim>\<open>get_maximum_vi_size\<close>: for each verify-instruction the sum of \<^verbatim>\<open>subtree_count\<close> over
  the pairs of \<^verbatim>\<open>get_nodes_by_vi\<close>, then \<^verbatim>\<open>std::max_element\<close>, whose result is
  dereferenced without a check. The sums are \<^verbatim>\<open>int\<close> in the source and unbounded here.
\<close>

fun vi_sizes :: "SEGNode list \<Rightarrow> nat list \<Rightarrow> error + int list" where
  "vi_sizes pool [] = Inr []"
| "vi_sizes pool (v # vs) =
     (case get_nodes_by_vi pool v of
        Inl e \<Rightarrow> Inl e
      | Inr root_nodes_for_vi \<Rightarrow>
          (let a = foldl (\<lambda>left p. left + subtree_count (info (snd p))) 0 root_nodes_for_vi
           in case vi_sizes pool vs of
                Inl e \<Rightarrow> Inl e
              | Inr szs \<Rightarrow> Inr (a # szs)))"

definition max_element :: "int list \<Rightarrow> error + int" where
  "max_element xs = (case xs of [] \<Rightarrow> Inl EmptyRange | x # rest \<Rightarrow> Inr (fold max rest x))"

definition get_maximum_vi_size :: "SEGNode list \<Rightarrow> nat list \<Rightarrow> error + int" where
  "get_maximum_vi_size pool vis =
     (case vi_sizes pool vis of
        Inl e \<Rightarrow> Inl e
      | Inr szs \<Rightarrow> max_element szs)"

text \<open>
  The printer, for the variants whose text does not depend on the bracket guards
  (the \<^verbatim>\<open>Guard\<close> class and the default guard of \<^verbatim>\<open>binary_op\<close> are declared outside the
  given sources): an assignment prints \<^verbatim>\<open>lhs = rhs;\<close>, a statement appends \<^verbatim>\<open>;\<close> and a
  newline, a declaration prints the type name, a space and the variable name. Other
  variants are not rendered.
\<close>

definition int_to_string :: "int \<Rightarrow> string" where
  "int_to_string v = (if v < 0 then ''-'' @ to_string (nat (- v)) else to_string (nat v))"

fun print_expr :: "Expr \<Rightarrow> string option" where
  "print_expr (Id_e s) = Some s"
| "print_expr (Int_e v) = Some (int_to_string v)"
| "print_expr (Var n t) = Some n"
| "print_expr (VarDecl (Var n t)) = Some (t @ '' '' @ n)"
| "print_expr (Dereference e) =
     (case print_expr e of Some a \<Rightarrow> Some (''(*'' @ a @ '')'') | None \<Rightarrow> None)"
| "print_expr (Assign l r) =
     (case print_expr l of
        None \<Rightarrow> None
      | Some a \<Rightarrow> (case print_expr r of None \<Rightarrow> None | Some b \<Rightarrow> Some (a @ '' = '' @ b @ '';'')))"
| "print_expr (Statement e) =
     (case print_expr e of Some a \<Rightarrow> Some (a @ '';'' @ [CHR 0x0A]) | None \<Rightarrow> None)"
| "print_expr (Return e) =
     (case print_expr e of Some a \<Rightarrow> Some (''return '' @ a @ '';'') | None \<Rightarrow> None)"
| "print_expr _ = None"

text \<open>
  The driver prints \<^verbatim>\<open>Statement(Assign(Var("MAX_SIZE_INSTR"), Int(m)))\<close> with \<open>m\<close> the
  result of \<^verbatim>\<open>get_maximum_vi_size\<close>.
\<close>

definition emit_max_size :: "SEGNode list \<Rightarrow> nat list \<Rightarrow> error + string option" where
  "emit_max_size pool vis =
     (case get_maximum_vi_size pool vis of
        Inl e \<Rightarrow> Inl e
      | Inr m \<Rightarrow> Inr (print_expr (Statement (Assign (Var ''MAX_SIZE_INSTR'' ''auto'') (Int_e m)))))"

text \<open>The sum of \<^verbatim>\<open>subtree_count\<close> over the pairs returned for a verify-instruction.\<close>

definition vi_sum :: "SEGNode list \<Rightarrow> nat \<Rightarrow> int" where
  "vi_sum pool v =
     sum_list (map (\<lambda>n. subtree_count (info n) *
                      int (length (filter (\<lambda>root. vi root = v \<and> isRoot (info n)) (valid_for_contexts (info n)))))
                pool)"

lemma foldl_add_sum: "foldl (\<lambda>left p. left + f p) (a::int) xs = a + sum_list (map f xs)"
  by (induction xs arbitrary: a) auto

lemma sum_list_const_map: "sum_list (map (\<lambda>x. (c::int)) xs) = c * int (length xs)"
  by (induction xs) (auto simp: algebra_simps)

lemma get_nodes_by_vi_sum:
  "get_nodes_by_vi pool v = Inr m \<Longrightarrow>
   foldl (\<lambda>left p. left + subtree_count (info (snd p))) 0 m = vi_sum pool v"
proof -
  assume "get_nodes_by_vi pool v = Inr m"
  then have m: "m = concat (map (\<lambda>n. map (\<lambda>root. (root, n))
                                (filter (\<lambda>root. vi root = v \<and> isRoot (info n)) (valid_for_contexts (info n))))
                          pool)"
    by (auto simp: get_nodes_by_vi_def Let_def split: if_splits)
  show ?thesis unfolding m vi_sum_def foldl_add_sum
    by (induction pool) (auto simp: o_def sum_list_const_map)
qed

lemma vi_sizes_map:
  "vi_sizes pool vis = Inr szs \<Longrightarrow> szs = map (vi_sum pool) vis"
proof (induction vis arbitrary: szs)
  case Nil
  then show ?case by simp
next
  case (Cons v vs)
  then show ?case
    by (auto simp: Let_def get_nodes_by_vi_sum split: sum.splits)
qed

lemma fold_max_Max: "fold max xs (x::int) = Max (set (x # xs))"
proof (induction xs arbitrary: x)
  case Nil
  then show ?case by simp
next
  case (Cons y ys)
  have "fold max (y # ys) x = fold max ys (max y x)" by simp
  also have "\<dots> = Max (set (max y x # ys))" by (rule Cons.IH)
  also have "\<dots> = Max (set (x # y # ys))"
    by (cases "ys = []") (auto simp: max.commute max.left_commute max.assoc)
  finally show ?case .
qed

lemma get_maximum_vi_size_is_max:
  assumes "get_maximum_vi_size pool vis = Inr m"
  shows "vis \<noteq> [] \<and> m = Max (vi_sum pool ` set vis)"
proof -
  from assms obtain szs where v: "vi_sizes pool vis = Inr szs" and mx: "max_element szs = Inr m"
    by (auto simp: get_maximum_vi_size_def split: sum.splits)
  from v have szs: "szs = map (vi_sum pool) vis" by (rule vi_sizes_map)
  from mx obtain x rest where xr: "szs = x # rest" and m: "m = fold max rest x"
    by (auto simp: max_element_def split: list.splits)
  from xr szs have ne: "vis \<noteq> []" by auto
  have "m = Max (set szs)" using m xr by (simp add: fold_max_Max)
  with szs ne show ?thesis by simp
qed


definition example_pool :: "SEGNode list" where
  "example_pool =
     [SEGNode (example_info ''vi_0_path0_node0'' True [\<lparr>vi = 0, root_in_vi = 5, select_choices = []\<rparr>] True 3)
        [SEGNode (example_info ''vi_0_path0_node1'' False [] False 1) [],
         SEGNode (example_info ''vi_0_path0_node2'' False [] False 1) []],
      SEGNode (example_info ''vi_1_path0_node0'' True [\<lparr>vi = 1, root_in_vi = 9, select_choices = []\<rparr>] True 2)
        [SEGNode (example_info ''vi_1_path0_node1'' False [] False 1) []]]"

text \<open>
  Claim C4. A pool with two verify-instructions whose roots count 3 and 2 nodes: the
  value is the maximum, 3, but the text printed is the bare assignment
  \<^verbatim>\<open>MAX_SIZE_INSTR = 3;;\<close> without a type and without \<^verbatim>\<open>constexpr\<close>.
\<close>

theorem emit_max_size_example:
  "emit_max_size example_pool [0, 1] = Inr (Some (''MAX_SIZE_INSTR = 3;;'' @ [CHR 0x0A]))
   \<and> get_maximum_vi_size example_pool [0, 1] = Inr 3"
  by code_simp


section \<open>Shared nodes in a store\<close>

text \<open>
  The functions that mutate nodes work on shared pointers: a node is a cell of a store,
  \<^verbatim>\<open>_nodes\<close> and \<^verbatim>\<open>_parents\<close> hold addresses of cells (read through the accessors
  \<^verbatim>\<open>children()\<close> and \<^verbatim>\<open>parents()\<close>, whose names the fields take).
\<close>

record seg_cell = seg_info +
  children :: "nat list"
  parents :: "nat list"

type_synonym cells = "nat \<Rightarrow> seg_cell"

subsection \<open>Cost analysis\<close>

text \<open>
  The body of the first loop of \<^verbatim>\<open>calculate_costs\<close> for one node: \<^verbatim>\<open>std::accumulate\<close>
  from 1 over the children, adding a child's \<^verbatim>\<open>inline_cost\<close> when its \<^verbatim>\<open>fd\<close> is false and
  1 otherwise; then \<^verbatim>\<open>fd\<close> is set when the cost is at least 2 or the node is a root. The
  flag is only ever set, never cleared. The counts are \<^verbatim>\<open>int\<close> in the source and
  unbounded here.
\<close>

definition cost_step :: "nat \<Rightarrow> cells \<Rightarrow> cells" where
  "cost_step a c =
     (let cost = foldl (\<lambda>current n. if fd (c n) = False then current + inline_cost (c n) else current + 1)
                   1 (children (c a));
          c1 = c(a := (c a)\<lparr>inline_cost := cost\<rparr>)
      in if inline_cost (c1 a) \<ge> 2 \<or> isRoot (c1 a) then c1(a := (c1 a)\<lparr>fd := True\<rparr>) else c1)"

text \<open>The body of the second loop: 1 plus the \<^verbatim>\<open>subtree_count\<close> of every child.\<close>

definition count_step :: "nat \<Rightarrow> cells \<Rightarrow> cells" where
  "count_step a c =
     c(a := (c a)\<lparr>subtree_count :=
          foldl (\<lambda>current n. current + subtree_count (c n)) 1 (children (c a))\<rparr>)"

text \<open>
  Both loops run over \<^verbatim>\<open>gap::graph::dfs<on_close>\<close> of the graph. The generator belongs
  to a library outside the repository; the sequence of addresses it yields is the
  argument \<open>order\<close>.
\<close>

definition calculate_costs :: "nat list \<Rightarrow> cells \<Rightarrow> cells" where
  "calculate_costs order c = fold count_step order (fold cost_step order c)"

text \<open>
  What a depth-first walk that yields a node when it is closed produces on an acyclic
  graph: every node once, each after all of its children.
\<close>

fun post_order :: "cells \<Rightarrow> nat list \<Rightarrow> nat list \<Rightarrow> bool" where
  "post_order c seen [] = True"
| "post_order c seen (a # rest) =
     (a \<notin> set seen \<and> set (children (c a)) \<subseteq> set seen \<and> post_order c (a # seen) rest)"

text \<open>The equations of the cost analysis at one node.\<close>

definition cost_ok :: "cells \<Rightarrow> nat \<Rightarrow> bool" where
  "cost_ok c a =
     (inline_cost (c a) = 1 + sum_list (map (\<lambda>n. if fd (c n) then 1 else inline_cost (c n)) (children (c a)))
      \<and> fd (c a) = (inline_cost (c a) \<ge> 2 \<or> isRoot (c a)))"

definition count_ok :: "cells \<Rightarrow> nat \<Rightarrow> bool" where
  "count_ok c a =
     (subtree_count (c a) = 1 + sum_list (map (\<lambda>n. subtree_count (c n)) (children (c a))))"

lemma foldl_cost:
  "foldl (\<lambda>current n. if \<not> fd (c n) then current + inline_cost (c n) else current + 1) (i::int) xs
     = i + sum_list (map (\<lambda>n. if fd (c n) then 1 else inline_cost (c n)) xs)"
  by (induction xs arbitrary: i) auto

lemma foldl_count:
  "foldl (\<lambda>current n. current + subtree_count (c n)) (i::int) xs
     = i + sum_list (map (\<lambda>n. subtree_count (c n)) xs)"
  by (induction xs arbitrary: i) auto

lemma post_order_disjoint: "post_order c seen rest \<Longrightarrow> set rest \<inter> set seen = {}"
proof (induction rest arbitrary: seen)
  case Nil
  then show ?case by simp
next
  case (Cons a rest)
  from Cons.prems have "a \<notin> set seen" and "post_order c (a # seen) rest" by auto
  with Cons.IH [of "a # seen"] show ?case by auto
qed

lemma post_order_cong:
  "(\<And>a. children (c' a) = children (c a)) \<Longrightarrow> post_order c' seen rest = post_order c seen rest"
  by (induction rest arbitrary: seen) auto

lemma cost_step_other: "b \<noteq> a \<Longrightarrow> cost_step a c b = c b"
  by (simp add: cost_step_def Let_def)

lemma cost_step_children: "children (cost_step a c b) = children (c b)"
  by (simp add: cost_step_def Let_def)

lemma cost_step_isRoot: "isRoot (cost_step a c b) = isRoot (c b)"
  by (simp add: cost_step_def Let_def)

lemma cost_step_subtree_count: "subtree_count (cost_step a c b) = subtree_count (c b)"
  by (simp add: cost_step_def Let_def)

lemma cost_ok_cong:
  assumes "c' a = c a" "\<And>n. n \<in> set (children (c a)) \<Longrightarrow> c' n = c n"
  shows "cost_ok c' a = cost_ok c a"
proof -
  have "map (\<lambda>n. if fd (c' n) then 1 else inline_cost (c' n)) (children (c a))
      = map (\<lambda>n. if fd (c n) then 1 else inline_cost (c n)) (children (c a))"
    using assms(2) by (intro map_cong) auto
  then have "sum_list (map (\<lambda>n. if fd (c' n) then 1 else inline_cost (c' n)) (children (c a)))
      = sum_list (map (\<lambda>n. if fd (c n) then 1 else inline_cost (c n)) (children (c a)))"
    by (rule arg_cong)
  then show ?thesis unfolding cost_ok_def assms(1) by (simp only:)
qed

lemma cost_step_self:
  assumes "a \<notin> set (children (c a))" "\<not> fd (c a)"
  shows "cost_ok (cost_step a c) a"
proof -
  let ?cost = "1 + sum_list (map (\<lambda>n. if fd (c n) then 1 else inline_cost (c n)) (children (c a)))"
  have eq: "map (\<lambda>n. if fd (cost_step a c n) then 1 else inline_cost (cost_step a c n)) (children (c a))
      = map (\<lambda>n. if fd (c n) then 1 else inline_cost (c n)) (children (c a))"
  proof (intro map_cong refl)
    fix n assume "n \<in> set (children (c a))"
    with assms(1) have "n \<noteq> a" by auto
    then have "cost_step a c n = c n" by (rule cost_step_other)
    then show "(if fd (cost_step a c n) then 1 else inline_cost (cost_step a c n))
             = (if fd (c n) then (1::int) else inline_cost (c n))" by simp
  qed
  have i: "inline_cost (cost_step a c a) = ?cost"
    by (simp add: cost_step_def Let_def foldl_cost)
  have f: "fd (cost_step a c a) = (?cost \<ge> 2 \<or> isRoot (c a))"
    using assms(2) by (simp add: cost_step_def Let_def foldl_cost)
  show ?thesis
    unfolding cost_ok_def cost_step_children cost_step_isRoot eq i f by simp
qed

lemma fold_cost_step:
  assumes "post_order c seen rest"
    and "\<forall>a \<in> set seen. cost_ok c a \<and> set (children (c a)) \<subseteq> set seen"
    and "\<forall>a \<in> set rest. \<not> fd (c a)"
  shows "\<forall>a \<in> set seen \<union> set rest. cost_ok (fold cost_step rest c) a"
  using assms
proof (induction rest arbitrary: c seen)
  case Nil
  then show ?case by simp
next
  case (Cons a rest)
  let ?c = "cost_step a c"
  from Cons.prems(1) have a: "a \<notin> set seen" and ch: "set (children (c a)) \<subseteq> set seen"
    and po: "post_order c (a # seen) rest" by auto
  from po have dis: "set rest \<inter> set (a # seen) = {}" by (rule post_order_disjoint)
  have po': "post_order ?c (a # seen) rest"
    using po by (simp add: post_order_cong [of ?c c] cost_step_children)
  have self: "cost_ok ?c a"
    using a ch Cons.prems(3) by (intro cost_step_self) auto
  have seen: "\<forall>b \<in> set seen. cost_ok ?c b"
  proof
    fix b assume b: "b \<in> set seen"
    with a have ba: "b \<noteq> a" by auto
    from b Cons.prems(2) have chb: "set (children (c b)) \<subseteq> set seen" and ok: "cost_ok c b" by auto
    have "cost_ok ?c b = cost_ok c b"
    proof (rule cost_ok_cong)
      show "?c b = c b" using ba by (rule cost_step_other)
    next
      fix n assume "n \<in> set (children (c b))"
      with chb a have "n \<noteq> a" by auto
      then show "?c n = c n" by (rule cost_step_other)
    qed
    with ok show "cost_ok ?c b" by simp
  qed
  have inv: "\<forall>b \<in> set (a # seen). cost_ok ?c b \<and> set (children (?c b)) \<subseteq> set (a # seen)"
    using self seen ch Cons.prems(2) by (auto simp: cost_step_children)
  have nofd: "\<forall>b \<in> set rest. \<not> fd (?c b)"
  proof
    fix b assume b: "b \<in> set rest"
    with dis have "b \<noteq> a" by auto
    then have "?c b = c b" by (rule cost_step_other)
    with b Cons.prems(3) show "\<not> fd (?c b)" by simp
  qed
  from Cons.IH [OF po' inv nofd] show ?case by simp
qed

lemma count_step_other: "b \<noteq> a \<Longrightarrow> count_step a c b = c b"
  by (simp add: count_step_def)

lemma count_step_children: "children (count_step a c b) = children (c b)"
  by (simp add: count_step_def)

lemma count_step_cost_ok: "cost_ok (count_step a c) b = cost_ok c b"
proof -
  have "\<And>n. fd (count_step a c n) = fd (c n)" "\<And>n. inline_cost (count_step a c n) = inline_cost (c n)"
    "\<And>n. isRoot (count_step a c n) = isRoot (c n)"
    by (simp_all add: count_step_def)
  then show ?thesis by (simp add: cost_ok_def count_step_children cong: if_cong)
qed

lemma count_ok_cong:
  assumes "c' a = c a" "\<And>n. n \<in> set (children (c a)) \<Longrightarrow> c' n = c n"
  shows "count_ok c' a = count_ok c a"
proof -
  have "map (\<lambda>n. subtree_count (c' n)) (children (c a)) = map (\<lambda>n. subtree_count (c n)) (children (c a))"
    using assms(2) by (intro map_cong) auto
  then have "sum_list (map (\<lambda>n. subtree_count (c' n)) (children (c a)))
      = sum_list (map (\<lambda>n. subtree_count (c n)) (children (c a)))"
    by (rule arg_cong)
  then show ?thesis unfolding count_ok_def assms(1) by (simp only:)
qed

lemma count_step_self:
  assumes "a \<notin> set (children (c a))"
  shows "count_ok (count_step a c) a"
proof -
  have eq: "map (\<lambda>n. subtree_count (count_step a c n)) (children (c a))
      = map (\<lambda>n. subtree_count (c n)) (children (c a))"
  proof (intro map_cong refl)
    fix n assume "n \<in> set (children (c a))"
    with assms have "n \<noteq> a" by auto
    then have "count_step a c n = c n" by (rule count_step_other)
    then show "subtree_count (count_step a c n) = subtree_count (c n)" by simp
  qed
  have i: "subtree_count (count_step a c a) = 1 + sum_list (map (\<lambda>n. subtree_count (c n)) (children (c a)))"
    by (simp add: count_step_def foldl_count)
  show ?thesis
    unfolding count_ok_def count_step_children eq i by simp
qed

lemma fold_count_step:
  assumes "post_order c seen rest"
    and "\<forall>a \<in> set seen. count_ok c a \<and> set (children (c a)) \<subseteq> set seen"
  shows "\<forall>a \<in> set seen \<union> set rest. count_ok (fold count_step rest c) a"
  using assms
proof (induction rest arbitrary: c seen)
  case Nil
  then show ?case by simp
next
  case (Cons a rest)
  let ?c = "count_step a c"
  from Cons.prems(1) have a: "a \<notin> set seen" and ch: "set (children (c a)) \<subseteq> set seen"
    and po: "post_order c (a # seen) rest" by auto
  have po': "post_order ?c (a # seen) rest"
    using po by (simp add: post_order_cong [of ?c c] count_step_children)
  have self: "count_ok ?c a"
    using a ch by (intro count_step_self) auto
  have seen: "\<forall>b \<in> set seen. count_ok ?c b"
  proof
    fix b assume b: "b \<in> set seen"
    with a have ba: "b \<noteq> a" by auto
    from b Cons.prems(2) have chb: "set (children (c b)) \<subseteq> set seen" and ok: "count_ok c b" by auto
    have "count_ok ?c b = count_ok c b"
    proof (rule count_ok_cong)
      show "?c b = c b" using ba by (rule count_step_other)
    next
      fix n assume "n \<in> set (children (c b))"
      with chb a have "n \<noteq> a" by auto
      then show "?c n = c n" by (rule count_step_other)
    qed
    with ok show "count_ok ?c b" by simp
  qed
  have inv: "\<forall>b \<in> set (a # seen). count_ok ?c b \<and> set (children (?c b)) \<subseteq> set (a # seen)"
    using self seen ch Cons.prems(2) by (auto simp: count_step_children)
  from Cons.IH [OF po' inv] show ?case by simp
qed

lemma fold_cost_step_children: "children (fold cost_step xs c b) = children (c b)"
  by (induction xs arbitrary: c) (simp_all add: cost_step_children)

lemma fold_count_step_children: "children (fold count_step xs c b) = children (c b)"
  by (induction xs arbitrary: c) (simp_all add: count_step_children)

lemma fold_count_step_cost_ok: "cost_ok (fold count_step xs c) b = cost_ok c b"
  by (induction xs arbitrary: c) (simp_all add: count_step_cost_ok)

text \<open>
  Claim C5. When \<^verbatim>\<open>calculate_costs\<close> runs over a post-order of the graph whose nodes all
  start with \<^verbatim>\<open>fd\<close> false (the state of freshly built nodes), every node \<open>a\<close> ends with
  \<open>inline_cost a = 1 + \<Sum> (child.fd ? 1 : child.inline_cost)\<close>,
  \<open>fd a = (inline_cost a \<ge> 2 \<or> isRoot a)\<close> and
  \<open>subtree_count a = 1 + \<Sum> subtree_count child\<close>; a childless node has
  \<open>inline_cost = 1\<close> and \<open>subtree_count = 1\<close>.
\<close>

theorem calculate_costs_equations:
  assumes order: "post_order c [] order"
    and fresh: "\<forall>a \<in> set order. \<not> fd (c a)"
    and a: "a \<in> set order"
  shows "inline_cost (calculate_costs order c a) =
           1 + sum_list (map (\<lambda>n. if fd (calculate_costs order c n) then 1
                                   else inline_cost (calculate_costs order c n))
                          (children (calculate_costs order c a)))
       \<and> fd (calculate_costs order c a) =
           (inline_cost (calculate_costs order c a) \<ge> 2 \<or> isRoot (calculate_costs order c a))
       \<and> subtree_count (calculate_costs order c a) =
           1 + sum_list (map (\<lambda>n. subtree_count (calculate_costs order c n))
                          (children (calculate_costs order c a)))
       \<and> (children (calculate_costs order c a) = [] \<longrightarrow>
            inline_cost (calculate_costs order c a) = 1 \<and> subtree_count (calculate_costs order c a) = 1)"
proof -
  let ?c1 = "fold cost_step order c"
  let ?c2 = "calculate_costs order c"
  have c2: "?c2 = fold count_step order ?c1" by (simp add: calculate_costs_def)
  have "\<forall>a \<in> set [] \<union> set order. cost_ok ?c1 a"
    using order fresh by (intro fold_cost_step) auto
  with a have "cost_ok ?c1 a" by simp
  then have cost: "cost_ok ?c2 a" by (simp add: c2 fold_count_step_cost_ok)
  have po1: "post_order ?c1 [] order"
    using order by (simp add: post_order_cong [of ?c1 c] fold_cost_step_children)
  have "\<forall>a \<in> set [] \<union> set order. count_ok ?c2 a"
    unfolding c2 using po1 by (intro fold_count_step) auto
  with a have count: "count_ok ?c2 a" by simp
  from cost count show ?thesis by (auto simp: cost_ok_def count_ok_def)
qed

subsection \<open>Linking nodes\<close>

text \<open>
  \<^verbatim>\<open>std::make_shared<SEGNode>(*this)\<close> allocates a new cell holding a copy of the node.
  The store hands out addresses in increasing order; the allocated cells are those
  below \<open>next_free\<close>.
\<close>

record seg_heap =
  cell :: cells
  next_free :: nat

definition make_shared :: "seg_cell \<Rightarrow> seg_heap \<Rightarrow> nat \<times> seg_heap" where
  "make_shared v h = (next_free h, h\<lparr>cell := (cell h)(next_free h := v), next_free := next_free h + 1\<rparr>)"

text \<open>
  \<^verbatim>\<open>add_parent\<close> pushes the parent's pointer on this node's \<^verbatim>\<open>_parents\<close>, then pushes a
  pointer to a new copy of this node on the parent's \<^verbatim>\<open>_nodes\<close>. \<^verbatim>\<open>add_child\<close> is the
  mirror image. The copy is taken after the first push.
\<close>

definition add_parent :: "nat \<Rightarrow> nat \<Rightarrow> seg_heap \<Rightarrow> seg_heap" where
  "add_parent this parent h =
     (let h1 = h\<lparr>cell := (cell h)(this := (cell h this)\<lparr>parents := parents (cell h this) @ [parent]\<rparr>)\<rparr>;
          (copy, h2) = make_shared (cell h1 this) h1
      in h2\<lparr>cell := (cell h2)(parent := (cell h2 parent)\<lparr>children := children (cell h2 parent) @ [copy]\<rparr>)\<rparr>)"

definition add_child :: "nat \<Rightarrow> nat \<Rightarrow> seg_heap \<Rightarrow> seg_heap" where
  "add_child this child h =
     (let h1 = h\<lparr>cell := (cell h)(this := (cell h this)\<lparr>children := children (cell h this) @ [child]\<rparr>)\<rparr>;
          (copy, h2) = make_shared (cell h1 this) h1
      in h2\<lparr>cell := (cell h2)(child := (cell h2 child)\<lparr>parents := parents (cell h2 child) @ [copy]\<rparr>)\<rparr>)"

text \<open>Any later write to the fields of one node.\<close>

definition mutate :: "nat \<Rightarrow> (seg_cell \<Rightarrow> seg_cell) \<Rightarrow> seg_heap \<Rightarrow> seg_heap" where
  "mutate a f h = h\<lparr>cell := (cell h)(a := f (cell h a))\<rparr>"

text \<open>
  Claim C10. \<^verbatim>\<open>add_child(c)\<close> appends \<open>c\<close> itself to the node's children and appends to
  \<open>c\<close>'s parents the address of a newly allocated cell that holds a copy of the node;
  \<^verbatim>\<open>add_parent(p)\<close> appends \<open>p\<close> itself to the node's parents and the address of a new
  copy to \<open>p\<close>'s children. The new address differs from the node's and from every
  address allocated before, and a later write to the node leaves the copy behind the
  back-link unchanged.
\<close>

theorem add_child_add_parent_back_link_is_copy:
  assumes "this < next_free h" and "other < next_free h"
  shows "children (cell (add_child this other h) this) = children (cell h this) @ [other]
       \<and> parents (cell (add_child this other h) other) = parents (cell h other) @ [next_free h]
       \<and> cell (add_child this other h) (next_free h) =
            (cell h this)\<lparr>children := children (cell h this) @ [other]\<rparr>
       \<and> cell (mutate this f (add_child this other h)) (next_free h) =
            cell (add_child this other h) (next_free h)
       \<and> parents (cell (add_parent this other h) this) = parents (cell h this) @ [other]
       \<and> children (cell (add_parent this other h) other) = children (cell h other) @ [next_free h]
       \<and> cell (add_parent this other h) (next_free h) =
            (cell h this)\<lparr>parents := parents (cell h this) @ [other]\<rparr>
       \<and> cell (mutate this f (add_parent this other h)) (next_free h) =
            cell (add_parent this other h) (next_free h)
       \<and> next_free h \<noteq> this \<and> next_free h \<noteq> other
       \<and> next_free (add_child this other h) = next_free h + 1
       \<and> next_free (add_parent this other h) = next_free h + 1"
  using assms
  by (auto simp: add_child_def add_parent_def make_shared_def mutate_def Let_def)

text \<open>A root with two leaf children, visited leaves first; and a store with two unlinked nodes.\<close>

definition example_cell :: "bool \<Rightarrow> nat list \<Rightarrow> seg_cell" where
  "example_cell root cs =
     \<lparr>node_id = ''n'', isRoot = root, valid_for_contexts = [], roots = [], specializeble = True,
      fd = False, inline_cost = 0, subtree_count = 0, children = cs, parents = []\<rparr>"

definition example_cells :: cells where
  "example_cells = (\<lambda>a. example_cell False [])(2 := example_cell True [0, 1])"

definition example_heap :: seg_heap where
  "example_heap = \<lparr>cell = (\<lambda>a. example_cell False []), next_free = 2\<rparr>"

theorem calculate_costs_equations_witness:
  "post_order example_cells [] [0, 1, 2]
   \<and> \<not> fd (example_cells 0) \<and> \<not> fd (example_cells 1) \<and> \<not> fd (example_cells 2)
   \<and> inline_cost (calculate_costs [0, 1, 2] example_cells 2) = 3
   \<and> fd (calculate_costs [0, 1, 2] example_cells 2)
   \<and> subtree_count (calculate_costs [0, 1, 2] example_cells 2) = 3
   \<and> inline_cost (calculate_costs [0, 1, 2] example_cells 0) = 1
   \<and> \<not> fd (calculate_costs [0, 1, 2] example_cells 0)
   \<and> subtree_count (calculate_costs [0, 1, 2] example_cells 0) = 1"
proof -
  have po: "post_order example_cells [] [0, 1, 2]"
    by (simp add: example_cells_def example_cell_def)
  have fr: "\<forall>a \<in> set [0, 1, 2]. \<not> fd (example_cells a)"
    by (simp add: example_cells_def example_cell_def)
  have ch: "children (calculate_costs [0, 1, 2] example_cells 2) = [0, 1]"
    "children (calculate_costs [0, 1, 2] example_cells 0) = []"
    "isRoot (calculate_costs [0, 1, 2] example_cells 0) = False"
    "isRoot (calculate_costs [0, 1, 2] example_cells 1) = False"
    "children (calculate_costs [0, 1, 2] example_cells 1) = []"
    by (simp_all add: calculate_costs_def cost_step_def count_step_def Let_def
          example_cells_def example_cell_def)
  note e0 = calculate_costs_equations [OF po fr, of 0]
  note e1 = calculate_costs_equations [OF po fr, of 1]
  note e2 = calculate_costs_equations [OF po fr, of 2]
  from e0 ch have l0: "inline_cost (calculate_costs [0, 1, 2] example_cells 0) = 1"
    "subtree_count (calculate_costs [0, 1, 2] example_cells 0) = 1"
    "\<not> fd (calculate_costs [0, 1, 2] example_cells 0)" by simp_all
  from e1 ch have l1: "inline_cost (calculate_costs [0, 1, 2] example_cells 1) = 1"
    "subtree_count (calculate_costs [0, 1, 2] example_cells 1) = 1"
    "\<not> fd (calculate_costs [0, 1, 2] example_cells 1)" by simp_all
  from e2 ch l0 l1 have l2: "inline_cost (calculate_costs [0, 1, 2] example_cells 2) = 3"
    "subtree_count (calculate_costs [0, 1, 2] example_cells 2) = 3"
    "fd (calculate_costs [0, 1, 2] example_cells 2)" by simp_all
  from po fr l0 l2 show ?thesis by simp
qed

theorem add_child_add_parent_back_link_is_copy_witness:
  "(0::nat) < next_free example_heap \<and> (1::nat) < next_free example_heap
   \<and> children (cell (add_child 0 1 example_heap) 0) = [1]
   \<and> parents (cell (add_child 0 1 example_heap) 1) = [2]
   \<and> cell (add_child 0 1 example_heap) 2 = example_cell False [1]
   \<and> cell (mutate 0 (\<lambda>c. c\<lparr>fd := True\<rparr>) (add_child 0 1 example_heap)) 2 = example_cell False [1]
   \<and> fd (cell (mutate 0 (\<lambda>c. c\<lparr>fd := True\<rparr>) (add_child 0 1 example_heap)) 0)"
proof -
  have a: "(0::nat) < next_free example_heap" and b: "(1::nat) < next_free example_heap"
    by (simp_all add: example_heap_def)
  have c: "children (cell example_heap 0) = []" "parents (cell example_heap 1) = []"
    "cell example_heap 0 = example_cell False []" "next_free example_heap = 2"
    by (simp_all add: example_heap_def example_cell_def)
  have d: "fd (cell (mutate 0 (\<lambda>c. c\<lparr>fd := True\<rparr>) (add_child 0 1 example_heap)) 0)"
    by (simp add: mutate_def)
  note t = add_child_add_parent_back_link_is_copy [OF a b, of "\<lambda>c. c\<lparr>fd := True\<rparr>"]
  from t a b c d show ?thesis by (simp add: example_cell_def)
qed


section \<open>Memory-hint layout\<close>

text \<open>
  \<^verbatim>\<open>Layout\<close> holds the eight field widths; the pointer size is the only parameter.
  \<^verbatim>\<open>Parsed\<close> adds the field values. \<^verbatim>\<open>make\<close> accepts the pointer sizes 32 and 64 only.
\<close>

definition e_num :: nat where
  "e_num = 8"

definition Layout :: "nat \<Rightarrow> nat list" where
  "Layout ptr_size = [1, 1, 6, 4, 4, ptr_size, ptr_size, 64]"

definition size_l :: "nat \<Rightarrow> nat" where
  "size_l ptr_size = sum_list (Layout ptr_size)"

record 'v Parsed =
  defs :: "nat list"
  vals :: "'v list"

definition make :: "nat \<Rightarrow> error + 'v Parsed" where
  "make ptr_size =
     (if ptr_size = 32 \<or> ptr_size = 64
      then Inr \<lparr>defs = Layout ptr_size, vals = []\<rparr>
      else Inl (CheckFailed ''ptr_size == 32 || ptr_size == 64''))"

text \<open>
  \<^verbatim>\<open>Parsed::apply\<close> calls \<^verbatim>\<open>f(defs[i], vals[i])\<close> for the eight indices in order;
  the callback mutates captured state, which is threaded here as the last argument.
\<close>

fun apply_l :: "(nat \<Rightarrow> 'v \<Rightarrow> 's \<Rightarrow> 's) \<Rightarrow> nat list \<Rightarrow> 'v list \<Rightarrow> 's \<Rightarrow> 's" where
  "apply_l f (d # ds) (v # vs) s = apply_l f ds vs (f d v s)"
| "apply_l f _ _ s = s"

text \<open>
  \<^verbatim>\<open>construct\<close> hands each value to the caller's inserter together with the running
  offset \<^verbatim>\<open>current\<close> and the field width, then advances the offset by the width. The
  inserter writes into an object of the caller (type \<^typ>\<open>'b\<close>).
\<close>

definition construct :: "'v Parsed \<Rightarrow> ('v \<Rightarrow> nat \<Rightarrow> nat \<Rightarrow> 'b \<Rightarrow> 'b) \<Rightarrow> 'b \<Rightarrow> error + 'b" where
  "construct parsed inserter out =
     (if e_num \<noteq> length (vals parsed) then Inl (CheckFailed ''e_num == vals.size()'')
      else Inr (snd (apply_l (\<lambda>def val (current, b). (current + def, inserter val current def b))
                       (defs parsed) (vals parsed) (0, out))))"

text \<open>
  \<^verbatim>\<open>parse\<close> asks the caller's extractor for each field at the running offset, in
  layout order, and collects the answers.
\<close>

fun do_extract_all :: "('v \<Rightarrow> nat \<Rightarrow> nat \<Rightarrow> 'v) \<Rightarrow> 'v \<Rightarrow> nat \<Rightarrow> nat list \<Rightarrow> 'v list" where
  "do_extract_all extract call current [] = []"
| "do_extract_all extract call current (e_size # ds) =
     extract call current e_size # do_extract_all extract call (current + e_size) ds"

definition parse :: "'v \<Rightarrow> ('v \<Rightarrow> nat \<Rightarrow> nat \<Rightarrow> 'v) \<Rightarrow> nat \<Rightarrow> error + 'v Parsed" where
  "parse call extract ptr_size =
     (case make ptr_size of
        Inl e \<Rightarrow> Inl e
      | Inr out \<Rightarrow> Inr (out\<lparr>vals := vals out @ do_extract_all extract call 0 (defs out)\<rparr>))"

text \<open>
  Modelled from the spec: the extractor and the inserter are supplied by callers that are
  not part of the given sources. The spec describes them as successive bit-range
  extraction and successive insertion on a bit-string of length \<open>16 + 2P + 64\<close>. A
  bit-string is a list of bits, position 0 first; extraction reads \<open>e_size\<close> bits from
  position \<open>from\<close>, insertion overwrites the bits from position \<open>from\<close> with the value,
  and construction starts from the all-zero string.
\<close>

type_synonym bits = "bool list"

definition extract_bits :: "bits \<Rightarrow> nat \<Rightarrow> nat \<Rightarrow> bits" where
  "extract_bits thing from e_size = take e_size (drop from thing)"

definition insert_bits :: "bits \<Rightarrow> nat \<Rightarrow> nat \<Rightarrow> bits \<Rightarrow> bits" where
  "insert_bits thing from e_size out = take from out @ thing @ drop (from + length thing) out"

definition zero_bits :: "nat \<Rightarrow> bits" where
  "zero_bits n = replicate n False"

text \<open>A record is well formed when it has the layout's widths and every value has its field's width.\<close>

definition well_formed :: "nat \<Rightarrow> bits Parsed \<Rightarrow> bool" where
  "well_formed ptr_size p = (defs p = Layout ptr_size \<and> list_all2 (\<lambda>d v. length v = d) (defs p) (vals p))"

lemma apply_l_insert_bits:
  "list_all2 (\<lambda>d v. length v = d) ds vs \<Longrightarrow> current + sum_list ds \<le> length out \<Longrightarrow>
   snd (apply_l (\<lambda>def val (current, b). (current + def, insert_bits val current def b)) ds vs (current, out))
     = take current out @ concat vs @ drop (current + sum_list ds) out"
proof (induction ds vs arbitrary: current out rule: list_all2_induct)
  case Nil
  then show ?case by simp
next
  case (Cons d ds v vs)
  let ?out = "insert_bits v current d out"
  have len: "length ?out = length out" using Cons.hyps(1) Cons.prems by (simp add: insert_bits_def)
  have "snd (apply_l (\<lambda>def val (current, b). (current + def, insert_bits val current def b)) (d # ds) (v # vs) (current, out))
      = snd (apply_l (\<lambda>def val (current, b). (current + def, insert_bits val current def b)) ds vs (current + d, ?out))"
    by simp
  also have "\<dots> = take (current + d) ?out @ concat vs @ drop (current + d + sum_list ds) ?out"
    using Cons.prems len by (intro Cons.IH) simp
  also have "take (current + d) ?out = take current out @ v"
    using Cons.hyps(1) Cons.prems by (simp add: insert_bits_def)
  also have "drop (current + d + sum_list ds) ?out = drop (current + sum_list (d # ds)) out"
    using Cons.hyps(1) Cons.prems by (simp add: insert_bits_def ac_simps)
  finally show ?case by simp
qed

lemma do_extract_all_concat:
  "list_all2 (\<lambda>d v. length v = d) ds vs \<Longrightarrow> length pre = current \<Longrightarrow>
   do_extract_all extract_bits (pre @ concat vs @ post) current ds = vs"
proof (induction ds vs arbitrary: current pre rule: list_all2_induct)
  case Nil
  then show ?case by simp
next
  case (Cons d ds v vs)
  have "do_extract_all extract_bits ((pre @ v) @ concat vs @ post) (current + d) ds = vs"
    using Cons.hyps(1) Cons.prems by (intro Cons.IH) simp
  moreover have "extract_bits (pre @ v @ concat vs @ post) current d = v"
    using Cons.hyps(1) Cons.prems by (simp add: extract_bits_def)
  ultimately show ?case by simp
qed

lemma concat_do_extract_all:
  "current + sum_list ds \<le> length bs \<Longrightarrow>
   concat (do_extract_all extract_bits bs current ds) = take (sum_list ds) (drop current bs)"
proof (induction ds arbitrary: current)
  case Nil
  then show ?case by simp
next
  case (Cons d ds)
  have "concat (do_extract_all extract_bits bs (current + d) ds) = take (sum_list ds) (drop (current + d) bs)"
    using Cons.prems by (intro Cons.IH) simp
  moreover have "extract_bits bs current d = take d (drop current bs)"
    by (simp add: extract_bits_def)
  ultimately show ?case
    by (simp add: take_add drop_drop add.commute)
qed

lemma do_extract_all_lengths:
  "current + sum_list ds \<le> length bs \<Longrightarrow>
   list_all2 (\<lambda>d v. length v = d) ds (do_extract_all extract_bits bs current ds)"
proof (induction ds arbitrary: current)
  case Nil
  then show ?case by simp
next
  case (Cons d ds)
  have "length (extract_bits bs current d) = d"
    using Cons.prems by (simp add: extract_bits_def)
  moreover have "list_all2 (\<lambda>d v. length v = d) ds (do_extract_all extract_bits bs (current + d) ds)"
    using Cons.prems by (intro Cons.IH) simp
  ultimately show ?case by simp
qed

lemma sum_list_Layout: "sum_list (Layout P) = 16 + 2 * P + 64"
  by (simp add: Layout_def)

text \<open>
  Claim C3. For pointer size 32 or 64: constructing a well-formed record into a zeroed
  bit-string of the layout's size and parsing the result returns the record; parsing a
  bit-string of that size and constructing the result returns the bit-string; and the
  eight fields are read at the offsets 0, 1, 2, 8, 12, 16, 16 + P and 16 + 2P with
  the widths 1, 1, 6, 4, 4, P, P, 64, each range starting where the previous one ends.
\<close>

theorem memory_layout_roundtrip:
  assumes P: "P = 32 \<or> P = 64"
  shows "(well_formed P p \<longrightarrow>
            (\<exists>bs. construct p insert_bits (zero_bits (size_l P)) = Inr bs
                  \<and> length bs = 16 + 2 * P + 64
                  \<and> parse bs extract_bits P = Inr p))
       \<and> (length bs = size_l P \<longrightarrow>
            (\<exists>q. parse bs extract_bits P = Inr q \<and> well_formed P q
                 \<and> construct q insert_bits (zero_bits (size_l P)) = Inr bs))
       \<and> (parse call extract P =
            Inr \<lparr>defs = [1, 1, 6, 4, 4, P, P, 64],
                 vals = [extract call 0 1, extract call 1 1, extract call 2 6, extract call 8 4,
                         extract call 12 4, extract call 16 P, extract call (16 + P) P,
                         extract call (16 + 2 * P) 64]\<rparr>)
       \<and> (construct \<lparr>defs = Layout P, vals = [v0, v1, v2, v3, v4, v5, v6, v7]\<rparr> ins out =
            Inr (ins v7 (16 + 2 * P) 64 (ins v6 (16 + P) P (ins v5 16 P (ins v4 12 4
                  (ins v3 8 4 (ins v2 2 6 (ins v1 1 1 (ins v0 0 1 out)))))))))"
proof (intro conjI impI)
  assume wf: "well_formed P p"
  then have d: "defs p = Layout P" and l: "list_all2 (\<lambda>d v. length v = d) (Layout P) (vals p)"
    by (auto simp: well_formed_def)
  from l have n: "length (vals p) = 8" by (auto simp: Layout_def dest: list_all2_lengthD)
  have c: "construct p insert_bits (zero_bits (size_l P)) = Inr (concat (vals p))"
    using apply_l_insert_bits [OF l, of 0 "zero_bits (size_l P)"] n
    by (simp add: construct_def e_num_def d size_l_def zero_bits_def)
  have len: "length (concat (vals p)) = sum_list (Layout P)"
    using l by (induction rule: list_all2_induct) auto
  have "do_extract_all extract_bits (concat (vals p)) 0 (Layout P) = vals p"
    using do_extract_all_concat [OF l, of "[]" 0 "[]"] by simp
  then have "parse (concat (vals p)) extract_bits P = Inr p"
    using P d by (auto simp: parse_def make_def)
  with c len show "\<exists>bs. construct p insert_bits (zero_bits (size_l P)) = Inr bs
      \<and> length bs = 16 + 2 * P + 64 \<and> parse bs extract_bits P = Inr p"
    by (simp add: sum_list_Layout)
next
  assume len: "length bs = size_l P"
  let ?q = "\<lparr>defs = Layout P, vals = do_extract_all extract_bits bs 0 (Layout P)\<rparr>"
  have p: "parse bs extract_bits P = Inr ?q" using P by (auto simp: parse_def make_def)
  have l: "list_all2 (\<lambda>d v. length v = d) (Layout P) (vals ?q)"
    using do_extract_all_lengths [of 0 "Layout P" bs] len by (simp add: size_l_def)
  then have wf: "well_formed P ?q" by (simp add: well_formed_def)
  from l have n: "length (vals ?q) = 8" by (auto simp: Layout_def dest: list_all2_lengthD)
  have "concat (vals ?q) = bs"
    using concat_do_extract_all [of 0 "Layout P" bs] len by (simp add: size_l_def)
  then have "construct ?q insert_bits (zero_bits (size_l P)) = Inr bs"
    using apply_l_insert_bits [OF l, of 0 "zero_bits (size_l P)"] n
    by (simp add: construct_def e_num_def size_l_def zero_bits_def)
  with p wf show "\<exists>q. parse bs extract_bits P = Inr q \<and> well_formed P q
      \<and> construct q insert_bits (zero_bits (size_l P)) = Inr bs" by blast
next
  show "parse call extract P =
            Inr \<lparr>defs = [1, 1, 6, 4, 4, P, P, 64],
                 vals = [extract call 0 1, extract call 1 1, extract call 2 6, extract call 8 4,
                         extract call 12 4, extract call 16 P, extract call (16 + P) P,
                         extract call (16 + 2 * P) 64]\<rparr>"
    using P by (auto simp: parse_def make_def Layout_def simp flip: numeral_2_eq_2)
next
  show "construct \<lparr>defs = Layout P, vals = [v0, v1, v2, v3, v4, v5, v6, v7]\<rparr> ins out =
            Inr (ins v7 (16 + 2 * P) 64 (ins v6 (16 + P) P (ins v5 16 P (ins v4 12 4
                  (ins v3 8 4 (ins v2 2 6 (ins v1 1 1 (ins v0 0 1 out))))))))"
    using P by (auto simp: construct_def e_num_def Layout_def simp flip: numeral_2_eq_2)
qed

text \<open>
  The record of the spec's scenario at pointer size 64: used 1, mode 0, reserved 0, id 3,
  size 4, address \<open>0xDEAD\<close>, value \<open>0xBEEF\<close>, timestamp 7.
\<close>

definition bits_of :: "nat \<Rightarrow> nat \<Rightarrow> bits" where
  "bits_of w n = map (bit n) [0..<w]"

definition example_hint :: "bits Parsed" where
  "example_hint =
     \<lparr>defs = Layout 64,
      vals = [bits_of 1 1, bits_of 1 0, bits_of 6 0, bits_of 4 3, bits_of 4 4,
              bits_of 64 57005, bits_of 64 48879, bits_of 64 7]\<rparr>"

theorem memory_layout_roundtrip_witness:
  "well_formed 64 example_hint
   \<and> (\<exists>bs. construct example_hint insert_bits (zero_bits (size_l 64)) = Inr bs
           \<and> length bs = 208 \<and> parse bs extract_bits 64 = Inr example_hint)
   \<and> length (zero_bits (size_l 64)) = size_l 64
   \<and> (\<exists>q. parse (zero_bits (size_l 64)) extract_bits 64 = Inr q \<and> well_formed 64 q
           \<and> construct q insert_bits (zero_bits (size_l 64)) = Inr (zero_bits (size_l 64)))"
proof -
  have wf: "well_formed 64 example_hint"
    by (simp add: well_formed_def example_hint_def Layout_def bits_of_def)
  have len: "length (zero_bits (size_l 64)) = size_l 64"
    by (simp add: zero_bits_def)
  have P: "(64::nat) = 32 \<or> (64::nat) = 64" by simp
  note r = memory_layout_roundtrip [OF P, where p = example_hint and bs = "zero_bits (size_l 64)"]
  note a = r [THEN conjunct1, rule_format, OF wf]
  note b = r [THEN conjunct2, THEN conjunct1, rule_format, OF len]
  from wf a len b show ?thesis by simp
qed


section \<open>Circuit operations and the advice-merging pass\<close>

text \<open>
  Modelled from the spec: the \<^verbatim>\<open>Operation\<close> class and the circuit container are
  declared outside the given sources. Following the spec's data model, an operation
  has an opcode tag (only \<^verbatim>\<open>Advice\<close> and \<^verbatim>\<open>AdviceConstraint\<close> are told apart here), an
  ordered list of operand references and a reverse user set; the circuit owns its
  operations, which are addressed by index. The user set of an operation is read off
  the operand lists.
\<close>

datatype op_kind = Advice | AdviceConstraint | OtherOperation

record Operation =
  kind :: op_kind
  operands :: "nat list"
  destroyed :: bool

record Circuit =
  op_at :: "nat \<Rightarrow> Operation"
  n_ops :: nat

definition set_operands :: "Circuit \<Rightarrow> nat \<Rightarrow> nat list \<Rightarrow> Circuit" where
  "set_operands c i xs = c\<lparr>op_at := (op_at c)(i := (op_at c i)\<lparr>operands := xs\<rparr>)\<rparr>"

definition users :: "Circuit \<Rightarrow> nat \<Rightarrow> nat list" where
  "users c x = filter (\<lambda>u. x \<in> set (operands (op_at c u))) [0..<n_ops c]"

text \<open>
  Modelled from the spec: \<^verbatim>\<open>destroy\<close> marks the operation as destroyed (it is swept once
  orphaned); detaching it from its operands and users is what the pass does in its
  next statements. \<^verbatim>\<open>remove_all_operands(x)\<close> drops every occurrence of \<open>x\<close> from the
  operand list. \<^verbatim>\<open>replace_all_uses_with(new)\<close> makes every user of the operation refer
  to \<open>new\<close> instead, at each position where it referred to the operation.
\<close>

definition destroy :: "Circuit \<Rightarrow> nat \<Rightarrow> Circuit" where
  "destroy c i = c\<lparr>op_at := (op_at c)(i := (op_at c i)\<lparr>destroyed := True\<rparr>)\<rparr>"

definition remove_all_operands :: "Circuit \<Rightarrow> nat \<Rightarrow> nat \<Rightarrow> Circuit" where
  "remove_all_operands c u x = set_operands c u (filter (\<lambda>p. p \<noteq> x) (operands (op_at c u)))"

definition replace_all_uses_with :: "Circuit \<Rightarrow> nat \<Rightarrow> nat \<Rightarrow> Circuit" where
  "replace_all_uses_with c old new =
     c\<lparr>op_at := (\<lambda>u. if u < n_ops c
                      then (op_at c u)\<lparr>operands := map (\<lambda>p. if p = old then new else p) (operands (op_at c u))\<rparr>
                      else op_at c u)\<rparr>"

lemma users_remove_all_operands:
  "users (remove_all_operands c u x) x = filter (\<lambda>v. v \<noteq> u) (users c x)"
proof -
  have "\<And>v. (x \<in> set (operands (op_at (remove_all_operands c u x) v)))
          = (v \<noteq> u \<and> x \<in> set (operands (op_at c v)))"
    by (auto simp: remove_all_operands_def set_operands_def)
  then show ?thesis
    by (simp add: users_def remove_all_operands_def set_operands_def conj_commute)
qed

lemma length_users_remove:
  "users c x = first_user # rest \<Longrightarrow>
   length (users (remove_all_operands c first_user x) x) < Suc (length rest)"
  unfolding users_remove_all_operands
  by (simp add: le_imp_less_Suc)

text \<open>
  The \<^verbatim>\<open>while\<close> loop of the pass: as long as the constraint has a user, take the first
  one and remove the constraint from its operands. Each round removes one user.
\<close>

function detach_users :: "Circuit \<Rightarrow> nat \<Rightarrow> Circuit" where
  "detach_users c ac =
     (case users c ac of
        [] \<Rightarrow> c
      | first_user # _ \<Rightarrow> detach_users (remove_all_operands c first_user ac) ac)"
  by pat_completeness auto
termination
  by (relation "measure (\<lambda>(c, ac). length (users c ac))") (auto simp: length_users_remove)

declare detach_users.simps [simp del]

text \<open>
  The body of the pass for a constraint whose two operands are both advices, statement
  by statement.
\<close>

definition merge_step :: "Circuit \<Rightarrow> nat \<Rightarrow> Circuit" where
  "merge_step c ac =
     (let lhs = operands (op_at c ac) ! 0;
          rhs = operands (op_at c ac) ! 1;
          c1 = destroy c ac;
          c2 = remove_all_operands c1 ac lhs;
          c3 = remove_all_operands c2 ac rhs;
          c4 = detach_users c3 ac
      in replace_all_uses_with c4 rhs lhs)"

text \<open>
  \<^verbatim>\<open>MergeAdviceConstraints::run\<close>: the loop over the advice constraints of the circuit.
  The check on the operand count aborts the pass; a constraint with an operand that is
  not an advice is skipped.
\<close>

fun merge_loop :: "nat list \<Rightarrow> Circuit \<Rightarrow> error + Circuit" where
  "merge_loop [] c = Inr c"
| "merge_loop (ac # rest) c =
     (if length (operands (op_at c ac)) \<noteq> 2 then Inl (CheckFailed ''ac->operands_size() == 2'')
      else if kind (op_at c (operands (op_at c ac) ! 0)) \<noteq> Advice
              \<or> kind (op_at c (operands (op_at c ac) ! 1)) \<noteq> Advice
      then merge_loop rest c
      else merge_loop rest (merge_step c ac))"

definition attr_AdviceConstraint :: "Circuit \<Rightarrow> nat list" where
  "attr_AdviceConstraint c = filter (\<lambda>i. kind (op_at c i) = AdviceConstraint) [0..<n_ops c]"

definition run_MergeAdviceConstraints :: "Circuit \<Rightarrow> error + Circuit" where
  "run_MergeAdviceConstraints circuit = merge_loop (attr_AdviceConstraint circuit) circuit"

text \<open>An operation has an advice on both sides: two operands, both advices.\<close>

definition both_advice :: "Circuit \<Rightarrow> nat \<Rightarrow> bool" where
  "both_advice c x =
     (length (operands (op_at c x)) = 2
      \<and> kind (op_at c (operands (op_at c x) ! 0)) = Advice
      \<and> kind (op_at c (operands (op_at c x) ! 1)) = Advice)"


lemma users_empty_iff: "users c x = [] \<longleftrightarrow> (\<forall>u < n_ops c. x \<notin> set (operands (op_at c u)))"
  by (auto simp: users_def filter_empty_conv)

lemma users_first: "users c x = f # r \<Longrightarrow> f < n_ops c"
proof -
  assume "users c x = f # r"
  then have "f \<in> set (users c x)" by simp
  then show ?thesis by (simp add: users_def)
qed

lemma detach_users_op_at:
  "n_ops (detach_users c ac) = n_ops c \<and>
   (\<forall>u. op_at (detach_users c ac) u =
      (if u < n_ops c
       then (op_at c u)\<lparr>operands := filter (\<lambda>p. p \<noteq> ac) (operands (op_at c u))\<rparr>
       else op_at c u))"
proof (induction c ac rule: detach_users.induct)
  case (1 c ac)
  show ?case
  proof (cases "users c ac")
    case Nil
    then have d: "detach_users c ac = c" by (subst detach_users.simps) simp
    from Nil have "\<forall>u < n_ops c. filter (\<lambda>p. p \<noteq> ac) (operands (op_at c u)) = operands (op_at c u)"
      by (auto simp: users_empty_iff filter_id_conv)
    then show ?thesis by (simp add: d)
  next
    case (Cons f r)
    let ?c = "remove_all_operands c f ac"
    from Cons have d: "detach_users c ac = detach_users ?c ac" by (subst detach_users.simps) simp
    have n: "n_ops ?c = n_ops c" by (simp add: remove_all_operands_def set_operands_def)
    have o: "\<And>u. op_at ?c u =
        (if u = f then (op_at c u)\<lparr>operands := filter (\<lambda>p. p \<noteq> ac) (operands (op_at c u))\<rparr> else op_at c u)"
      by (simp add: remove_all_operands_def set_operands_def)
    from Cons have f: "f < n_ops c" by (rule users_first)
    from 1 [OF Cons] have ih: "n_ops (detach_users ?c ac) = n_ops ?c"
      "\<And>u. op_at (detach_users ?c ac) u =
        (if u < n_ops ?c
         then (op_at ?c u)\<lparr>operands := filter (\<lambda>p. p \<noteq> ac) (operands (op_at ?c u))\<rparr>
         else op_at ?c u)" by auto
    show ?thesis unfolding d using f by (simp add: ih n o)
  qed
qed

lemma merge_step_op_at:
  assumes "operands (op_at c ac) = [a, b]"
  shows "n_ops (merge_step c ac) = n_ops c"
    and "op_at (merge_step c ac) ac = (op_at c ac)\<lparr>operands := [], destroyed := True\<rparr>"
    and "u \<noteq> ac \<Longrightarrow> u < n_ops c \<Longrightarrow>
          op_at (merge_step c ac) u =
            (op_at c u)\<lparr>operands := map (\<lambda>p. if p = b then a else p)
                                      (filter (\<lambda>p. p \<noteq> ac) (operands (op_at c u)))\<rparr>"
    and "u \<noteq> ac \<Longrightarrow> \<not> u < n_ops c \<Longrightarrow> op_at (merge_step c ac) u = op_at c u"
  using assms
  by (auto simp: merge_step_def Let_def detach_users_op_at replace_all_uses_with_def
        remove_all_operands_def set_operands_def destroy_def)


text \<open>
  The invariant of the loop. \<open>D\<close> is the set of constraints destroyed so far and \<open>\<sigma>\<close>
  the composition of the replacements made so far: every surviving operation has its
  original operands, without the destroyed constraints, renamed by \<open>\<sigma>\<close>.
\<close>

definition merged :: "Circuit \<Rightarrow> nat list \<Rightarrow> Circuit \<Rightarrow> (nat \<Rightarrow> nat) \<Rightarrow> nat set \<Rightarrow> bool" where
  "merged c acs c' \<sigma> D =
     (D \<subseteq> set acs
      \<and> n_ops c' = n_ops c
      \<and> (\<forall>u. kind (op_at c' u) = kind (op_at c u))
      \<and> (\<forall>u. destroyed (op_at c u) \<longrightarrow> destroyed (op_at c' u))
      \<and> (\<forall>p. kind (op_at c p) \<noteq> Advice \<longrightarrow> \<sigma> p = p)
      \<and> (\<forall>p. kind (op_at c (\<sigma> p)) = kind (op_at c p))
      \<and> (\<forall>x \<in> set acs. both_advice c x \<longrightarrow>
            x \<in> D \<and> \<sigma> (operands (op_at c x) ! 0) = \<sigma> (operands (op_at c x) ! 1))
      \<and> (\<forall>x \<in> D. destroyed (op_at c' x) \<and> operands (op_at c' x) = [])
      \<and> (\<forall>u < n_ops c. u \<notin> D \<longrightarrow>
            operands (op_at c' u) = map \<sigma> (filter (\<lambda>p. p \<notin> D) (operands (op_at c u))))
      \<and> (\<forall>x \<in> set acs. \<not> both_advice c' x))"

lemma merged_Nil: "merged c [] c id {}"
  by (simp add: merged_def)

lemma merged_skip:
  assumes m: "merged c rest c' \<sigma> D"
    and ops: "operands (op_at c ac) = [a, b]"
    and skip: "kind (op_at c a) \<noteq> Advice \<or> kind (op_at c b) \<noteq> Advice"
    and ac: "ac < n_ops c"
  shows "merged c (ac # rest) c' \<sigma> D"
proof -
  from m have D: "D \<subseteq> set rest"
    and kinds: "\<And>u. kind (op_at c' u) = kind (op_at c u)"
    and sk: "\<And>p. kind (op_at c (\<sigma> p)) = kind (op_at c p)"
    and dead: "\<And>x. x \<in> D \<Longrightarrow> operands (op_at c' x) = []"
    and rep: "\<And>u. u < n_ops c \<Longrightarrow> u \<notin> D \<Longrightarrow>
            operands (op_at c' u) = map \<sigma> (filter (\<lambda>p. p \<notin> D) (operands (op_at c u)))"
    by (auto simp: merged_def)
  have nb: "\<not> both_advice c ac" using ops skip by (simp add: both_advice_def)
  have nb': "\<not> both_advice c' ac"
  proof (cases "ac \<in> D")
    case True
    then show ?thesis using dead [of ac] by (simp add: both_advice_def)
  next
    case False
    show ?thesis
    proof
      assume b: "both_advice c' ac"
      have o: "operands (op_at c' ac) = map \<sigma> (filter (\<lambda>p. p \<notin> D) [a, b])"
        using rep [OF ac False] ops by simp
      from b have "length (operands (op_at c' ac)) = 2" by (simp add: both_advice_def)
      with o have keep: "a \<notin> D" "b \<notin> D" by (auto split: if_splits)
      with o have o': "operands (op_at c' ac) = [\<sigma> a, \<sigma> b]" by simp
      from b o' have "kind (op_at c' (\<sigma> a)) = Advice" "kind (op_at c' (\<sigma> b)) = Advice"
        by (simp_all add: both_advice_def)
      then have "kind (op_at c a) = Advice" "kind (op_at c b) = Advice"
        by (simp_all add: kinds sk)
      with skip show False by simp
    qed
  qed
  from m nb nb' D show ?thesis
    unfolding merged_def by auto
qed

lemma merge_step_kind:
  "operands (op_at c ac) = [a, b] \<Longrightarrow> kind (op_at (merge_step c ac) u) = kind (op_at c u)"
  using merge_step_op_at(2,3,4) [of c ac a b]
  by (cases "u = ac"; cases "u < n_ops c") auto

lemma merge_step_destroyed:
  "operands (op_at c ac) = [a, b] \<Longrightarrow> destroyed (op_at c u) \<Longrightarrow> destroyed (op_at (merge_step c ac) u)"
  using merge_step_op_at(2,3,4) [of c ac a b]
  by (cases "u = ac"; cases "u < n_ops c") auto

lemma merged_step:
  assumes m: "merged (merge_step c ac) rest c' \<sigma>1 D1"
    and ops: "operands (op_at c ac) = [a, b]"
    and ka: "kind (op_at c a) = Advice" and kb: "kind (op_at c b) = Advice"
    and ac: "ac < n_ops c" and kac: "kind (op_at c ac) = AdviceConstraint"
    and rest: "\<forall>x \<in> set rest. x < n_ops c \<and> kind (op_at c x) = AdviceConstraint"
  shows "merged c (ac # rest) c' (\<sigma>1 \<circ> (\<lambda>p. if p = b then a else p)) (insert ac D1)"
proof -
  let ?c1 = "merge_step c ac"
  let ?s = "\<lambda>p. if p = b then a else p"
  note st = merge_step_op_at [OF ops]
  have k1: "\<And>u. kind (op_at ?c1 u) = kind (op_at c u)" using ops by (rule merge_step_kind)
  from m have D1: "D1 \<subseteq> set rest"
    and n: "n_ops c' = n_ops ?c1"
    and kinds: "\<And>u. kind (op_at c' u) = kind (op_at ?c1 u)"
    and des: "\<And>u. destroyed (op_at ?c1 u) \<Longrightarrow> destroyed (op_at c' u)"
    and sid: "\<And>p. kind (op_at ?c1 p) \<noteq> Advice \<Longrightarrow> \<sigma>1 p = p"
    and sk: "\<And>p. kind (op_at ?c1 (\<sigma>1 p)) = kind (op_at ?c1 p)"
    and bo: "\<And>x. x \<in> set rest \<Longrightarrow> both_advice ?c1 x \<Longrightarrow>
            x \<in> D1 \<and> \<sigma>1 (operands (op_at ?c1 x) ! 0) = \<sigma>1 (operands (op_at ?c1 x) ! 1)"
    and dead: "\<And>x. x \<in> D1 \<Longrightarrow> destroyed (op_at c' x) \<and> operands (op_at c' x) = []"
    and rep: "\<And>u. u < n_ops ?c1 \<Longrightarrow> u \<notin> D1 \<Longrightarrow>
            operands (op_at c' u) = map \<sigma>1 (filter (\<lambda>p. p \<notin> D1) (operands (op_at ?c1 u)))"
    and nb: "\<And>x. x \<in> set rest \<Longrightarrow> \<not> both_advice c' x"
    by (auto simp: merged_def)
  have D1k: "\<And>x. x \<in> D1 \<Longrightarrow> kind (op_at c x) = AdviceConstraint" using D1 rest by auto
  have aD: "a \<notin> D1" using D1k [of a] ka by auto
  have bD: "b \<notin> D1" using D1k [of b] kb by auto
  have sD: "\<And>p. (?s p \<in> D1) = (p \<in> D1)" using aD bD by auto
  have ac_dead: "destroyed (op_at c' ac) \<and> operands (op_at c' ac) = []"
  proof (cases "ac \<in> D1")
    case True
    then show ?thesis by (rule dead)
  next
    case False
    have "operands (op_at c' ac) = []"
      using rep [of ac] False ac st(1) st(2) by simp
    moreover have "destroyed (op_at c' ac)" by (rule des) (simp add: st(2))
    ultimately show ?thesis by simp
  qed
  have c1: "insert ac D1 \<subseteq> set (ac # rest)" using D1 by auto
  have c2: "n_ops c' = n_ops c" using n st(1) by simp
  have c3: "\<forall>u. kind (op_at c' u) = kind (op_at c u)" by (simp add: kinds k1)
  have c4: "\<forall>u. destroyed (op_at c u) \<longrightarrow> destroyed (op_at c' u)"
    using des merge_step_destroyed [OF ops] by blast
  have c5: "\<forall>p. kind (op_at c p) \<noteq> Advice \<longrightarrow> (\<sigma>1 \<circ> ?s) p = p"
  proof (intro allI impI)
    fix p assume p: "kind (op_at c p) \<noteq> Advice"
    with kb have "p \<noteq> b" by auto
    then have "?s p = p" by simp
    moreover have "\<sigma>1 p = p" using p by (intro sid) (simp add: k1)
    ultimately show "(\<sigma>1 \<circ> ?s) p = p" by simp
  qed
  have c6: "\<forall>p. kind (op_at c ((\<sigma>1 \<circ> ?s) p)) = kind (op_at c p)"
  proof
    fix p
    have "kind (op_at c (\<sigma>1 (?s p))) = kind (op_at c (?s p))" using sk [of "?s p"] by (simp add: k1)
    also have "\<dots> = kind (op_at c p)" using ka kb by simp
    finally show "kind (op_at c ((\<sigma>1 \<circ> ?s) p)) = kind (op_at c p)" by simp
  qed
  have c7: "\<forall>x \<in> set (ac # rest). both_advice c x \<longrightarrow>
            x \<in> insert ac D1 \<and> (\<sigma>1 \<circ> ?s) (operands (op_at c x) ! 0) = (\<sigma>1 \<circ> ?s) (operands (op_at c x) ! 1)"
  proof (intro ballI impI)
    fix x assume x: "x \<in> set (ac # rest)" and b: "both_advice c x"
    show "x \<in> insert ac D1 \<and> (\<sigma>1 \<circ> ?s) (operands (op_at c x) ! 0) = (\<sigma>1 \<circ> ?s) (operands (op_at c x) ! 1)"
    proof (cases "x = ac")
      case True
      then show ?thesis using ops by simp
    next
      case False
      with x have xr: "x \<in> set rest" by simp
      with rest have xn: "x < n_ops c" by simp
      from b obtain p q where pq: "operands (op_at c x) = [p, q]"
        and kp: "kind (op_at c p) = Advice" and kq: "kind (op_at c q) = Advice"
        unfolding both_advice_def
        by (cases "operands (op_at c x)" rule: list.exhaust; simp)
           (metis length_0_conv length_Suc_conv nth_Cons_0 nth_Cons_Suc One_nat_def Suc_1 Suc_inject)
      from kp kq kac have "p \<noteq> ac" "q \<noteq> ac" by auto
      then have o1: "operands (op_at ?c1 x) = [?s p, ?s q]"
        using st(3) [OF False xn] pq by simp
      have "both_advice ?c1 x"
        using o1 ka kb kp kq by (simp add: both_advice_def k1)
      from bo [OF xr this] o1 have "x \<in> D1" "\<sigma>1 (?s p) = \<sigma>1 (?s q)" by simp_all
      then show ?thesis using pq by simp
    qed
  qed
  have c8: "\<forall>x \<in> insert ac D1. destroyed (op_at c' x) \<and> operands (op_at c' x) = []"
    using ac_dead dead by blast
  have c9: "\<forall>u < n_ops c. u \<notin> insert ac D1 \<longrightarrow>
            operands (op_at c' u) = map (\<sigma>1 \<circ> ?s) (filter (\<lambda>p. p \<notin> insert ac D1) (operands (op_at c u)))"
  proof (intro allI impI)
    fix u assume u: "u < n_ops c" and uD: "u \<notin> insert ac D1"
    then have ua: "u \<noteq> ac" and uD1: "u \<notin> D1" by auto
    have "operands (op_at c' u) = map \<sigma>1 (filter (\<lambda>p. p \<notin> D1) (operands (op_at ?c1 u)))"
      using rep [of u] u uD1 st(1) by simp
    also have "operands (op_at ?c1 u) = map ?s (filter (\<lambda>p. p \<noteq> ac) (operands (op_at c u)))"
      using st(3) [OF ua u] by simp
    also have "filter (\<lambda>p. p \<notin> D1) (map ?s (filter (\<lambda>p. p \<noteq> ac) (operands (op_at c u))))
        = map ?s (filter (\<lambda>p. p \<notin> insert ac D1) (operands (op_at c u)))"
      using sD by (induction "operands (op_at c u)") (auto simp: filter_map o_def)
    finally show "operands (op_at c' u) = map (\<sigma>1 \<circ> ?s) (filter (\<lambda>p. p \<notin> insert ac D1) (operands (op_at c u)))"
      by simp
  qed
  have c10: "\<forall>x \<in> set (ac # rest). \<not> both_advice c' x"
    using nb ac_dead by (auto simp: both_advice_def)
  from c1 c2 c3 c4 c5 c6 c7 c8 c9 c10 show ?thesis
    unfolding merged_def by blast
qed

text \<open>
  The merges the loop performs, in order: for every constraint whose body is executed,
  the constraint, its first operand \<^verbatim>\<open>lhs\<close> and its second operand \<^verbatim>\<open>rhs\<close> as read at that
  moment, that is the arguments of \<^verbatim>\<open>rhs->replace_all_uses_with( lhs )\<close>. The recursion is
  that of \<open>merge_loop\<close>.
\<close>

fun merge_trace :: "nat list \<Rightarrow> Circuit \<Rightarrow> (nat \<times> nat \<times> nat) list" where
  "merge_trace [] c = []"
| "merge_trace (ac # rest) c =
     (if length (operands (op_at c ac)) \<noteq> 2 then []
      else if kind (op_at c (operands (op_at c ac) ! 0)) \<noteq> Advice
              \<or> kind (op_at c (operands (op_at c ac) ! 1)) \<noteq> Advice
      then merge_trace rest c
      else (ac, operands (op_at c ac) ! 0, operands (op_at c ac) ! 1) # merge_trace rest (merge_step c ac))"

text \<open>
  The replacements of a trace applied to an operand, first merge first.
\<close>

fun rename :: "(nat \<times> nat \<times> nat) list \<Rightarrow> nat \<Rightarrow> nat" where
  "rename [] p = p"
| "rename ((ac, lhs, rhs) # t) p = rename t (if p = rhs then lhs else p)"

text \<open>
  The constraints a trace destroys, and the advices a trace replaces by another one.
\<close>

definition merged_constraints :: "(nat \<times> nat \<times> nat) list \<Rightarrow> nat set" where
  "merged_constraints t = set (map fst t)"

definition replaced :: "(nat \<times> nat \<times> nat) list \<Rightarrow> nat set" where
  "replaced t = set (map (\<lambda>(ac, lhs, rhs). rhs) (filter (\<lambda>(ac, lhs, rhs). lhs \<noteq> rhs) t))"

lemma rename_not_replaced: "p \<notin> replaced t \<Longrightarrow> rename t p = p"
proof (induction t arbitrary: p)
  case Nil
  then show ?case by simp
next
  case (Cons e t)
  obtain ac lhs rhs where e: "e = (ac, lhs, rhs)" by (cases e)
  from Cons.prems e have a: "(if p = rhs then lhs else p) = p" and b: "p \<notin> replaced t"
    by (auto simp: replaced_def split: if_splits)
  show ?case unfolding e using a Cons.IH [OF b] by simp
qed

lemma merge_loop_merged_trace:
  assumes "\<forall>x \<in> set acs. x < n_ops c \<and> kind (op_at c x) = AdviceConstraint"
    and "merge_loop acs c = Inr c'"
  shows "merged c acs c' (rename (merge_trace acs c)) (merged_constraints (merge_trace acs c))"
  using assms
proof (induction acs arbitrary: c)
  case Nil
  then have "c' = c" by simp
  moreover have "rename [] = id" by (rule ext) simp
  ultimately show ?case using merged_Nil [of c] by (simp add: merged_constraints_def id_def)
next
  case (Cons ac rest)
  from Cons.prems(1) have ac: "ac < n_ops c" and kac: "kind (op_at c ac) = AdviceConstraint"
    and rest: "\<forall>x \<in> set rest. x < n_ops c \<and> kind (op_at c x) = AdviceConstraint" by auto
  from Cons.prems(2) have len: "length (operands (op_at c ac)) = 2"
    by (auto split: if_splits)
  then obtain a b where ops: "operands (op_at c ac) = [a, b]"
    by (auto simp: length_Suc_conv numeral_2_eq_2)
  show ?case
  proof (cases "kind (op_at c a) \<noteq> Advice \<or> kind (op_at c b) \<noteq> Advice")
    case True
    with Cons.prems(2) ops have "merge_loop rest c = Inr c'" by auto
    from Cons.IH [OF rest this]
    have "merged c rest c' (rename (merge_trace rest c)) (merged_constraints (merge_trace rest c))" .
    from merged_skip [OF this ops True ac] show ?thesis using True ops by simp
  next
    case False
    then have ka: "kind (op_at c a) = Advice" and kb: "kind (op_at c b) = Advice" by auto
    with Cons.prems(2) ops have run: "merge_loop rest (merge_step c ac) = Inr c'" by simp
    have rest1: "\<forall>x \<in> set rest. x < n_ops (merge_step c ac) \<and> kind (op_at (merge_step c ac) x) = AdviceConstraint"
      using rest merge_step_op_at(1) [OF ops] merge_step_kind [OF ops] by simp
    let ?t = "merge_trace rest (merge_step c ac)"
    from Cons.IH [OF rest1 run]
    have "merged (merge_step c ac) rest c' (rename ?t) (merged_constraints ?t)" .
    from merged_step [OF this ops ka kb ac kac rest]
    have m: "merged c (ac # rest) c' (rename ?t \<circ> (\<lambda>p. if p = b then a else p)) (insert ac (merged_constraints ?t))" .
    have t: "merge_trace (ac # rest) c = (ac, a, b) # ?t" using ops ka kb by simp
    have r: "rename ((ac, a, b) # ?t) = rename ?t \<circ> (\<lambda>p. if p = b then a else p)"
      by (rule ext) simp
    have d: "merged_constraints ((ac, a, b) # ?t) = insert ac (merged_constraints ?t)"
      by (simp add: merged_constraints_def)
    show ?thesis unfolding t r d by (rule m)
  qed
qed

text \<open>
  The circuits on which the pass runs to its end: each listed constraint occurs once,
  has two operands, and no constraint is an operand of a listed constraint.
\<close>

definition binary_constraints :: "Circuit \<Rightarrow> nat list \<Rightarrow> bool" where
  "binary_constraints c acs =
     (distinct acs \<and>
      (\<forall>x \<in> set acs. x < n_ops c \<and> kind (op_at c x) = AdviceConstraint
          \<and> length (operands (op_at c x)) = 2
          \<and> (\<forall>p \<in> set (operands (op_at c x)). kind (op_at c p) \<noteq> AdviceConstraint)))"

lemma binary_constraints_step:
  assumes b: "binary_constraints c (ac # rest)"
    and ops: "operands (op_at c ac) = [a, b']"
    and ka: "kind (op_at c a) = Advice" and kb: "kind (op_at c b') = Advice"
  shows "binary_constraints (merge_step c ac) rest"
proof -
  note st = merge_step_op_at [OF ops]
  have k: "\<And>u. kind (op_at (merge_step c ac) u) = kind (op_at c u)" using ops by (rule merge_step_kind)
  from b have d: "distinct rest" and nin: "ac \<notin> set rest" by (auto simp: binary_constraints_def)
  have "\<forall>x \<in> set rest. x < n_ops (merge_step c ac) \<and> kind (op_at (merge_step c ac) x) = AdviceConstraint
          \<and> length (operands (op_at (merge_step c ac) x)) = 2
          \<and> (\<forall>p \<in> set (operands (op_at (merge_step c ac) x)). kind (op_at (merge_step c ac) p) \<noteq> AdviceConstraint)"
  proof
    fix x assume x: "x \<in> set rest"
    with nin have xa: "x \<noteq> ac" by auto
    from b x have xn: "x < n_ops c" and kx: "kind (op_at c x) = AdviceConstraint"
      and len: "length (operands (op_at c x)) = 2"
      and nac: "\<forall>p \<in> set (operands (op_at c x)). kind (op_at c p) \<noteq> AdviceConstraint"
      by (auto simp: binary_constraints_def)
    from b have kac: "kind (op_at c ac) = AdviceConstraint" by (simp add: binary_constraints_def)
    from nac kac have "ac \<notin> set (operands (op_at c x))" by auto
    then have f: "filter (\<lambda>p. p \<noteq> ac) (operands (op_at c x)) = operands (op_at c x)"
      by (auto simp: filter_id_conv)
    have o: "operands (op_at (merge_step c ac) x) = map (\<lambda>p. if p = b' then a else p) (operands (op_at c x))"
      using st(3) [OF xa xn] f by simp
    have "\<forall>p \<in> set (operands (op_at (merge_step c ac) x)). kind (op_at c p) \<noteq> AdviceConstraint"
      unfolding o using nac ka by auto
    then show "x < n_ops (merge_step c ac) \<and> kind (op_at (merge_step c ac) x) = AdviceConstraint
          \<and> length (operands (op_at (merge_step c ac) x)) = 2
          \<and> (\<forall>p \<in> set (operands (op_at (merge_step c ac) x)). kind (op_at (merge_step c ac) p) \<noteq> AdviceConstraint)"
      using xn kx len st(1) by (simp add: k o)
  qed
  with d show ?thesis by (simp add: binary_constraints_def)
qed

lemma merge_loop_returns:
  "binary_constraints c acs \<Longrightarrow> \<exists>c'. merge_loop acs c = Inr c'"
proof (induction acs arbitrary: c)
  case Nil
  then show ?case by simp
next
  case (Cons ac rest)
  from Cons.prems have len: "length (operands (op_at c ac)) = 2" by (simp add: binary_constraints_def)
  then obtain a b where ops: "operands (op_at c ac) = [a, b]"
    by (auto simp: length_Suc_conv numeral_2_eq_2)
  show ?case
  proof (cases "kind (op_at c a) \<noteq> Advice \<or> kind (op_at c b) \<noteq> Advice")
    case True
    from Cons.prems have "binary_constraints c rest" by (simp add: binary_constraints_def)
    from Cons.IH [OF this] show ?thesis using True ops by auto
  next
    case False
    then have ka: "kind (op_at c a) = Advice" and kb: "kind (op_at c b) = Advice" by auto
    from binary_constraints_step [OF Cons.prems ops ka kb]
    have "binary_constraints (merge_step c ac) rest" .
    from Cons.IH [OF this] show ?thesis using ka kb ops by simp
  qed
qed


lemma set_attr_AdviceConstraint:
  "set (attr_AdviceConstraint c) = {x. x < n_ops c \<and> kind (op_at c x) = AdviceConstraint}"
  by (auto simp: attr_AdviceConstraint_def)

text \<open>
  Claim C7, as amended. Let \<open>T\<close> be the trace of the merges of the pass, \<open>\<sigma>\<close> the
  replacements of \<open>T\<close> and \<open>D\<close> the constraints \<open>T\<close> destroys. After the pass the circuit has
  the same operations with the same kinds; every operation outside \<open>D\<close> has its former
  operands, minus the constraints in \<open>D\<close>, each renamed by \<open>\<sigma>\<close>; \<open>\<sigma>\<close> leaves alone every
  operation that no merge replaced, and everything that is not an advice; every advice
  constraint that had an advice on both sides is in \<open>D\<close>, \<open>\<sigma>\<close> sends its second operand
  to the same advice as its first, and when no merge of the pass replaced its first
  operand that advice is the first operand itself: the former uses of the second
  operand then reference the first operand; every constraint in \<open>D\<close> is destroyed, has
  no operands and is an operand of no operation; and no advice constraint of the
  resulting circuit has an advice on both sides.
\<close>

theorem merge_transitive_advices:
  assumes acs: "set acs = set (attr_AdviceConstraint c)"
    and run: "merge_loop acs c = Inr c'"
  shows "merged_constraints (merge_trace acs c) \<subseteq> set acs
         \<and> n_ops c' = n_ops c
         \<and> (\<forall>u. kind (op_at c' u) = kind (op_at c u))
         \<and> (\<forall>u < n_ops c. u \<notin> merged_constraints (merge_trace acs c) \<longrightarrow>
               operands (op_at c' u) =
                 map (rename (merge_trace acs c))
                   (filter (\<lambda>p. p \<notin> merged_constraints (merge_trace acs c)) (operands (op_at c u))))
         \<and> (\<forall>p. p \<notin> replaced (merge_trace acs c) \<longrightarrow> rename (merge_trace acs c) p = p)
         \<and> (\<forall>p. kind (op_at c p) \<noteq> Advice \<longrightarrow> rename (merge_trace acs c) p = p)
         \<and> (\<forall>p. kind (op_at c (rename (merge_trace acs c) p)) = kind (op_at c p))
         \<and> (\<forall>x < n_ops c. kind (op_at c x) = AdviceConstraint \<and> both_advice c x \<longrightarrow>
               x \<in> merged_constraints (merge_trace acs c)
               \<and> rename (merge_trace acs c) (operands (op_at c x) ! 1)
                   = rename (merge_trace acs c) (operands (op_at c x) ! 0)
               \<and> (operands (op_at c x) ! 0 \<notin> replaced (merge_trace acs c) \<longrightarrow>
                    rename (merge_trace acs c) (operands (op_at c x) ! 1) = operands (op_at c x) ! 0))
         \<and> (\<forall>x \<in> merged_constraints (merge_trace acs c).
               destroyed (op_at c' x) \<and> operands (op_at c' x) = []
               \<and> (\<forall>u < n_ops c'. x \<notin> set (operands (op_at c' u))))
         \<and> (\<forall>x < n_ops c'. kind (op_at c' x) = AdviceConstraint \<longrightarrow> \<not> both_advice c' x)"
proof -
  let ?\<sigma> = "rename (merge_trace acs c)"
  let ?D = "merged_constraints (merge_trace acs c)"
  have pre: "\<forall>x \<in> set acs. x < n_ops c \<and> kind (op_at c x) = AdviceConstraint"
    using acs by (simp add: set_attr_AdviceConstraint)
  from merge_loop_merged_trace [OF pre run] have m: "merged c acs c' ?\<sigma> ?D" .
  then have D: "?D \<subseteq> set acs"
    and n: "n_ops c' = n_ops c"
    and kinds: "\<And>u. kind (op_at c' u) = kind (op_at c u)"
    and sid: "\<And>p. kind (op_at c p) \<noteq> Advice \<Longrightarrow> ?\<sigma> p = p"
    and sk: "\<And>p. kind (op_at c (?\<sigma> p)) = kind (op_at c p)"
    and bo: "\<And>x. x \<in> set acs \<Longrightarrow> both_advice c x \<Longrightarrow>
            x \<in> ?D \<and> ?\<sigma> (operands (op_at c x) ! 0) = ?\<sigma> (operands (op_at c x) ! 1)"
    and dead: "\<And>x. x \<in> ?D \<Longrightarrow> destroyed (op_at c' x) \<and> operands (op_at c' x) = []"
    and rep: "\<And>u. u < n_ops c \<Longrightarrow> u \<notin> ?D \<Longrightarrow>
            operands (op_at c' u) = map ?\<sigma> (filter (\<lambda>p. p \<notin> ?D) (operands (op_at c u)))"
    and nb: "\<And>x. x \<in> set acs \<Longrightarrow> \<not> both_advice c' x"
    by (auto simp: merged_def)
  have unused: "\<forall>x \<in> ?D. \<forall>u < n_ops c'. x \<notin> set (operands (op_at c' u))"
  proof (intro ballI allI impI)
    fix x u assume x: "x \<in> ?D" and u: "u < n_ops c'"
    from x D pre have kx: "kind (op_at c x) = AdviceConstraint" by auto
    show "x \<notin> set (operands (op_at c' u))"
    proof (cases "u \<in> ?D")
      case True
      then show ?thesis using dead [of u] by simp
    next
      case False
      show ?thesis
      proof
        assume "x \<in> set (operands (op_at c' u))"
        then obtain p where p: "p \<notin> ?D" and sp: "?\<sigma> p = x"
          using rep [of u] u n False by auto
        from sk [of p] sp kx have "kind (op_at c p) = AdviceConstraint" by simp
        then have "?\<sigma> p = p" by (intro sid) simp
        with sp p x show False by simp
      qed
    qed
  qed
  have fixed: "\<forall>p. p \<notin> replaced (merge_trace acs c) \<longrightarrow> ?\<sigma> p = p"
    by (simp add: rename_not_replaced)
  have a: "\<forall>x < n_ops c. kind (op_at c x) = AdviceConstraint \<and> both_advice c x \<longrightarrow>
               x \<in> ?D \<and> ?\<sigma> (operands (op_at c x) ! 1) = ?\<sigma> (operands (op_at c x) ! 0)
               \<and> (operands (op_at c x) ! 0 \<notin> replaced (merge_trace acs c) \<longrightarrow>
                    ?\<sigma> (operands (op_at c x) ! 1) = operands (op_at c x) ! 0)"
  proof (intro allI impI)
    fix x assume "x < n_ops c" and "kind (op_at c x) = AdviceConstraint \<and> both_advice c x"
    then have "x \<in> set acs" and "both_advice c x" using acs by (auto simp: set_attr_AdviceConstraint)
    from bo [OF this] have xD: "x \<in> ?D"
      and eq: "?\<sigma> (operands (op_at c x) ! 1) = ?\<sigma> (operands (op_at c x) ! 0)" by simp_all
    have "operands (op_at c x) ! 0 \<notin> replaced (merge_trace acs c) \<longrightarrow>
                    ?\<sigma> (operands (op_at c x) ! 1) = operands (op_at c x) ! 0"
      using eq by (simp add: rename_not_replaced)
    with xD eq show "x \<in> ?D \<and> ?\<sigma> (operands (op_at c x) ! 1) = ?\<sigma> (operands (op_at c x) ! 0)
               \<and> (operands (op_at c x) ! 0 \<notin> replaced (merge_trace acs c) \<longrightarrow>
                    ?\<sigma> (operands (op_at c x) ! 1) = operands (op_at c x) ! 0)" by simp
  qed
  have b: "\<forall>x < n_ops c'. kind (op_at c' x) = AdviceConstraint \<longrightarrow> \<not> both_advice c' x"
    using nb acs n kinds by (auto simp: set_attr_AdviceConstraint)
  have c: "\<forall>x \<in> ?D. destroyed (op_at c' x) \<and> operands (op_at c' x) = []
               \<and> (\<forall>u < n_ops c'. x \<notin> set (operands (op_at c' u)))"
    using dead unused by blast
  have r: "\<forall>u < n_ops c. u \<notin> ?D \<longrightarrow>
               operands (op_at c' u) = map ?\<sigma> (filter (\<lambda>p. p \<notin> ?D) (operands (op_at c u)))"
    using rep by blast
  have s1: "\<forall>p. kind (op_at c p) \<noteq> Advice \<longrightarrow> ?\<sigma> p = p" using sid by blast
  have s2: "\<forall>p. kind (op_at c (?\<sigma> p)) = kind (op_at c p)" using sk by blast
  have k: "\<forall>u. kind (op_at c' u) = kind (op_at c u)" using kinds by blast
  from D n k r fixed s1 s2 a c b show ?thesis by (intro conjI)
qed

text \<open>
  A chain: advices 0, 1, 2; constraint 3 binds (0, 1), constraint 4 binds (2, 0);
  operation 5 uses advice 1; operation 6 uses both constraints and operation 5. After
  the pass operation 5 refers to advice 2, not to advice 0, the first operand of
  constraint 3.
\<close>

definition mk_circuit :: "(op_kind \<times> nat list) list \<Rightarrow> Circuit" where
  "mk_circuit xs =
     \<lparr>op_at = (\<lambda>i. if i < length xs then \<lparr>kind = fst (xs ! i), operands = snd (xs ! i), destroyed = False\<rparr>
                    else \<lparr>kind = OtherOperation, operands = [], destroyed = False\<rparr>),
      n_ops = length xs\<rparr>"

definition chain_circuit :: Circuit where
  "chain_circuit = mk_circuit
     [(Advice, []), (Advice, []), (Advice, []),
      (AdviceConstraint, [0, 1]), (AdviceConstraint, [2, 0]),
      (OtherOperation, [1]), (OtherOperation, [3, 4, 5])]"

definition operands_of :: "error + Circuit \<Rightarrow> nat \<Rightarrow> nat list option" where
  "operands_of r u = (case r of Inl e \<Rightarrow> None | Inr c \<Rightarrow> Some (operands (op_at c u)))"


theorem merge_transitive_advices_chain_counterexample:
  "attr_AdviceConstraint chain_circuit = [3, 4]
   \<and> both_advice chain_circuit 3
   \<and> operands (op_at chain_circuit 3) = [0, 1]
   \<and> operands (op_at chain_circuit 5) = [1]
   \<and> operands_of (run_MergeAdviceConstraints chain_circuit) 5 = Some [2]"
  by code_simp

definition chain_result :: Circuit where
  "chain_result = (case run_MergeAdviceConstraints chain_circuit of Inr c \<Rightarrow> c | Inl e \<Rightarrow> chain_circuit)"

lemma Inr_projection:
  "(case r of Inl e \<Rightarrow> False | Inr c \<Rightarrow> True) \<Longrightarrow> r = Inr (case r of Inr c \<Rightarrow> c | Inl e \<Rightarrow> d)"
  by (cases r) auto

text \<open>
  A single constraint: advices 0 and 1; constraint 2 binds (0, 1); operation 3 uses
  advice 1; operation 4 uses the constraint and operation 3. After the pass operation 3
  refers to advice 0, the first operand of the constraint, and operation 4 has lost the
  constraint.
\<close>

definition single_circuit :: Circuit where
  "single_circuit = mk_circuit
     [(Advice, []), (Advice, []), (AdviceConstraint, [0, 1]),
      (OtherOperation, [1]), (OtherOperation, [2, 3])]"

definition single_result :: Circuit where
  "single_result = (case run_MergeAdviceConstraints single_circuit of Inr c \<Rightarrow> c | Inl e \<Rightarrow> single_circuit)"

theorem merge_transitive_advices_witness:
  "set [2] = set (attr_AdviceConstraint single_circuit)
   \<and> merge_loop [2] single_circuit = Inr single_result
   \<and> merge_trace [2] single_circuit = [(2, 0, 1)]
   \<and> both_advice single_circuit 2
   \<and> operands (op_at single_circuit 3) = [1]
   \<and> operands (op_at single_result 3) = [0]
   \<and> operands (op_at single_result 4) = [3]
   \<and> destroyed (op_at single_result 2) \<and> operands (op_at single_result 2) = []
   \<and> \<not> both_advice single_result 2"
proof -
  have at: "attr_AdviceConstraint single_circuit = [2]" by code_simp
  then have h1: "set [2] = set (attr_AdviceConstraint single_circuit)" by simp
  have ok: "(case merge_loop [2] single_circuit of Inl e \<Rightarrow> False | Inr c \<Rightarrow> True)" by code_simp
  have h2: "merge_loop [2] single_circuit = Inr single_result"
    unfolding single_result_def run_MergeAdviceConstraints_def at
    using ok by (rule Inr_projection)
  have t: "merge_trace [2] single_circuit = [(2, 0, 1)]" by code_simp
  have f: "(2::nat) < n_ops single_circuit" "kind (op_at single_circuit 2) = AdviceConstraint"
    "both_advice single_circuit 2" "(3::nat) < n_ops single_circuit"
    "(4::nat) < n_ops single_circuit"
    "operands (op_at single_circuit 2) = [0, 1]"
    "operands (op_at single_circuit 3) = [1]"
    "operands (op_at single_circuit 4) = [2, 3]"
    by code_simp+
  have D: "merged_constraints [(2::nat, 0::nat, 1::nat)] = {2}"
    by (simp add: merged_constraints_def)
  have R: "replaced [(2::nat, 0::nat, 1::nat)] = {1}"
    by (simp add: replaced_def)
  note all = merge_transitive_advices [OF h1 h2, unfolded t D R]
  note n = all [THEN conjunct2, THEN conjunct1]
  note k = all [THEN conjunct2, THEN conjunct2, THEN conjunct1]
  note r = all [THEN conjunct2, THEN conjunct2, THEN conjunct2, THEN conjunct1]
  note fx = all [THEN conjunct2, THEN conjunct2, THEN conjunct2, THEN conjunct2, THEN conjunct1]
  note m = all [THEN conjunct2, THEN conjunct2, THEN conjunct2, THEN conjunct2, THEN conjunct2,
                THEN conjunct2, THEN conjunct2, THEN conjunct1]
  note d = all [THEN conjunct2, THEN conjunct2, THEN conjunct2, THEN conjunct2, THEN conjunct2,
                THEN conjunct2, THEN conjunct2, THEN conjunct2, THEN conjunct1]
  note nb = all [THEN conjunct2, THEN conjunct2, THEN conjunct2, THEN conjunct2, THEN conjunct2,
                THEN conjunct2, THEN conjunct2, THEN conjunct2, THEN conjunct2]
  from m [rule_format, OF f(1)] f(2) f(3) f(6)
  have s1: "rename [(2, 0, 1)] 1 = 0" by simp
  from fx [rule_format, of 3] have s3: "rename [(2, 0, 1)] 3 = 3" by simp
  from r [rule_format, OF f(4)] f(7) s1
  have a3: "operands (op_at single_result 3) = [0]" by simp
  from r [rule_format, OF f(5)] f(8) s3
  have a4: "operands (op_at single_result 4) = [3]" by simp
  from d have a1: "destroyed (op_at single_result 2)"
    and a2: "operands (op_at single_result 2) = []" by simp_all
  have "2 < n_ops single_result" using n f(1) by simp
  from nb [rule_format, OF this] k f(2) have b: "\<not> both_advice single_result 2" by simp
  from h1 h2 t f(3) f(7) a3 a4 a1 a2 b show ?thesis by (intro conjI)
qed


section \<open>The driver\<close>

subsection \<open>Command-line options\<close>

text \<open>
  The options of the driver, in the order of its type list: inputs, outputs, the
  configuration of the lifter, and the rest.
\<close>

datatype cmd = CiffIn | IRIn | SMTIn | BytesIn | DecoderOut | DotOut | DotHighlight
  | Arch | OS | Help | Version

definition input_options :: "cmd list" where
  "input_options = [CiffIn, IRIn, SMTIn, BytesIn]"

definition output_options :: "cmd list" where
  "output_options = [DecoderOut, DotOut, DotHighlight]"

definition remill_config_options :: "cmd list" where
  "remill_config_options = [Arch, OS]"

definition other_options :: "cmd list" where
  "other_options = [Help, Version]"

definition cmd_opts_list :: "cmd list" where
  "cmd_opts_list = input_options @ output_options @ remill_config_options @ other_options"

text \<open>
  \<^verbatim>\<open>CmdOpt\<close>: the primary spelling of an option, its aliases and whether it is required.
\<close>

record CmdOpt =
  primary :: string
  aliases :: "string list"
  required :: bool

definition matches :: "CmdOpt \<Rightarrow> string \<Rightarrow> bool" where
  "matches copt what = (what = primary copt \<or> what \<in> set (aliases copt))"

text \<open>
  The declarations of the options themselves (their \<^verbatim>\<open>opt\<close>, their \<^verbatim>\<open>arity\<close> and, for
  some, a \<^verbatim>\<open>validate\<close> function) are outside the given sources. They are an argument,
  \<open>decl\<close>, of everything below; an option without \<^verbatim>\<open>validate\<close> has the function that
  accepts every value list.
\<close>

record cmd_decl =
  opt :: CmdOpt
  arity :: int
  validate :: "string list \<Rightarrow> string option"

definition cmd_to_string :: "(cmd \<Rightarrow> cmd_decl) \<Rightarrow> cmd \<Rightarrow> string" where
  "cmd_to_string decl c = ''[ '' @ primary (opt (decl c)) @ '' ]''"

subsection \<open>The parser\<close>

text \<open>
  The parse result maps the primary spelling of every matched option to its values.
  \<^verbatim>\<open>account\<close> without a token sets the entry to the empty list; \<^verbatim>\<open>account\<close> with a
  token appends it to the entry, which \<^verbatim>\<open>operator[]\<close> creates when it is missing.
\<close>

type_synonym parse_map_t = "(string \<times> string list) list"

fun assign_entry :: "string \<Rightarrow> string list \<Rightarrow> parse_map_t \<Rightarrow> parse_map_t" where
  "assign_entry k v [] = [(k, v)]"
| "assign_entry k v (e # es) = (if fst e = k then (k, v) # es else e # assign_entry k v es)"

definition get_raw :: "(cmd \<Rightarrow> cmd_decl) \<Rightarrow> parse_map_t \<Rightarrow> cmd \<Rightarrow> string list option" where
  "get_raw decl parsed c = map_of parsed (primary (opt (decl c)))"

definition present :: "(cmd \<Rightarrow> cmd_decl) \<Rightarrow> parse_map_t \<Rightarrow> cmd \<Rightarrow> bool" where
  "present decl parsed c = (get_raw decl parsed c \<noteq> None)"

definition account_opt :: "(cmd \<Rightarrow> cmd_decl) \<Rightarrow> cmd \<Rightarrow> parse_map_t \<Rightarrow> parse_map_t" where
  "account_opt decl c parsed = assign_entry (primary (opt (decl c))) [] parsed"

definition account_token :: "(cmd \<Rightarrow> cmd_decl) \<Rightarrow> cmd \<Rightarrow> string \<Rightarrow> parse_map_t \<Rightarrow> parse_map_t" where
  "account_token decl c t parsed =
     assign_entry (primary (opt (decl c)))
       ((case get_raw decl parsed c of None \<Rightarrow> [] | Some ts \<Rightarrow> ts) @ [t]) parsed"

definition matches_any :: "(cmd \<Rightarrow> cmd_decl) \<Rightarrow> cmd list \<Rightarrow> string \<Rightarrow> bool" where
  "matches_any decl cmds token = list_ex (\<lambda>h. matches (opt (decl h)) token) cmds"

text \<open>
  The parser state is the list of tokens not read yet (\<^verbatim>\<open>tokens\<close> from \<^verbatim>\<open>current\<close> on)
  and the parse result so far. A call of \<^verbatim>\<open>fail\<close> is the value \<open>Inl\<close> with the message.
  \<^verbatim>\<open>take_while\<close> is called with one predicate only, that the token matches no option.
\<close>

fun take_while_tokens ::
  "(cmd \<Rightarrow> cmd_decl) \<Rightarrow> cmd \<Rightarrow> string list \<Rightarrow> parse_map_t \<Rightarrow> string list \<times> parse_map_t" where
  "take_while_tokens decl c [] parsed = ([], parsed)"
| "take_while_tokens decl c (t # ts) parsed =
     (if matches_any decl cmd_opts_list t then (t # ts, parsed)
      else take_while_tokens decl c ts (account_token decl c t parsed))"

text \<open>
  \<^verbatim>\<open>take_n\<close> counts down an \<^verbatim>\<open>int8_t\<close>; the arity is converted to that type at the call.
\<close>

definition to_int8 :: "int \<Rightarrow> int" where
  "to_int8 a = (a + 128) mod 256 - 128"

fun take_n ::
  "(cmd \<Rightarrow> cmd_decl) \<Rightarrow> cmd \<Rightarrow> nat \<Rightarrow> string list \<Rightarrow> parse_map_t
     \<Rightarrow> string + (string list \<times> parse_map_t)" where
  "take_n decl c 0 tokens parsed = Inr (tokens, parsed)"
| "take_n decl c (Suc n) [] parsed = Inl ''Out of bonds read''"
| "take_n decl c (Suc n) (t # ts) parsed =
     (if matches_any decl cmd_opts_list t
      then Inl (cmd_to_string decl c @ '' expected '' @ to_string (Suc n)
                  @ '' more args, instead matched'' @ t)
      else take_n decl c n ts (account_token decl c t parsed))"

text \<open>
  \<^verbatim>\<open>parse_vals\<close>: the first argument token list starts after the option token, which
  \<^verbatim>\<open>next()\<close> has consumed.
\<close>

definition parse_vals ::
  "(cmd \<Rightarrow> cmd_decl) \<Rightarrow> cmd \<Rightarrow> string list \<Rightarrow> parse_map_t
     \<Rightarrow> string + (string list \<times> parse_map_t)" where
  "parse_vals decl c ts parsed =
     (if present decl parsed c then Inl (cmd_to_string decl c @ '' is present more than once'')
      else if arity (decl c) = 0 then Inr (ts, account_opt decl c parsed)
      else if arity (decl c) < 0 then Inr (take_while_tokens decl c ts parsed)
      else take_n decl c (nat (to_int8 (arity (decl c)))) ts parsed)"

fun match_on ::
  "(cmd \<Rightarrow> cmd_decl) \<Rightarrow> cmd list \<Rightarrow> string \<Rightarrow> string list \<Rightarrow> parse_map_t
     \<Rightarrow> string + (string list \<times> parse_map_t)" where
  "match_on decl [] t ts parsed = Inl (''Unrecognized option '' @ t)"
| "match_on decl (h # tail) t ts parsed =
     (if matches (opt (decl h)) t then parse_vals decl h ts parsed
      else match_on decl tail t ts parsed)"

lemma take_while_tokens_length:
  "take_while_tokens decl c ts parsed = (rest, parsed') \<Longrightarrow> length rest \<le> length ts"
  by (induction ts arbitrary: parsed) (auto split: if_splits intro: le_SucI)

lemma take_n_length:
  "take_n decl c n ts parsed = Inr (rest, parsed') \<Longrightarrow> length rest \<le> length ts"
  by (induction decl c n ts parsed rule: take_n.induct) (auto split: if_splits intro: le_SucI)

lemma parse_vals_length:
  "parse_vals decl c ts parsed = Inr (rest, parsed') \<Longrightarrow> length rest \<le> length ts"
  by (auto simp: parse_vals_def split: if_splits
        dest: take_while_tokens_length take_n_length)

lemma match_on_length:
  "match_on decl cmds t ts parsed = Inr (rest, parsed') \<Longrightarrow> length rest \<le> length ts"
  by (induction cmds) (auto split: if_splits dest: parse_vals_length)

function match_opt :: "(cmd \<Rightarrow> cmd_decl) \<Rightarrow> string list \<Rightarrow> parse_map_t \<Rightarrow> string + parse_map_t" where
  "match_opt decl [] parsed = Inl ''Out of bonds read''"
| "match_opt decl (t # ts) parsed =
     (if t \<noteq> [] \<and> hd t = CHR ''-''
      then (case match_on decl cmd_opts_list t ts parsed of
              Inl msg \<Rightarrow> Inl msg
            | Inr (rest, parsed') \<Rightarrow>
                if rest = [] then Inr parsed' else match_opt decl rest parsed')
      else Inl (''Could not match opt '' @ t))"
  by pat_completeness auto
termination
proof (relation "measure (\<lambda>(decl, ts, parsed). length ts)")
  show "wf (measure (\<lambda>(decl, ts, parsed). length ts))" by simp
next
  fix decl :: "cmd \<Rightarrow> cmd_decl" and t :: string and ts :: "string list"
    and parsed :: parse_map_t and x2 rest parsed'
  assume "match_on decl cmd_opts_list t ts parsed = Inr x2" and "(rest, parsed') = x2"
  then have "match_on decl cmd_opts_list t ts parsed = Inr (rest, parsed')" by simp
  from match_on_length [OF this]
  show "((decl, rest, parsed'), (decl, t # ts, parsed)) \<in> measure (\<lambda>(decl, ts, parsed). length ts)"
    by simp
qed

definition parse_argv :: "(cmd \<Rightarrow> cmd_decl) \<Rightarrow> string list \<Rightarrow> string + parse_map_t" where
  "parse_argv decl argv = match_opt decl (drop 1 argv) []"


subsection \<open>Validation\<close>

text \<open>
  Modelled from the spec: \<^verbatim>\<open>Validator\<close>, \<^verbatim>\<open>is_singleton\<close>, \<^verbatim>\<open>one_of\<close>, \<^verbatim>\<open>validate_leaves\<close>
  and \<^verbatim>\<open>process_errors\<close> are declared outside the given sources. By their names and by
  the spec (the inputs are mutually exclusive and one of them is given; zero or multiple
  inputs and a missing required option are misuse), \<^verbatim>\<open>is_singleton\<close> holds of an option
  that is absent or is the only option of the command line, \<^verbatim>\<open>one_of\<close> holds of a list of
  options of which exactly one is present, and \<^verbatim>\<open>validate_leaves\<close> asks of every option
  what the parser's own \<^verbatim>\<open>is_one_valid\<close> asks: a required option is present, and the
  values of a present option pass its \<^verbatim>\<open>validate\<close>. \<^verbatim>\<open>check\<close> collects the failures and
  \<^verbatim>\<open>process_errors\<close> hands each to the callback, which writes it and a line end to the
  error stream, and tells whether there was one. The wording of the messages is the
  argument \<open>describe\<close>.
\<close>

datatype cli_error = NotSingleton cmd | NotOneOf "cmd list" | NotPresent cmd | ValidateFailed cmd string

definition is_singleton :: "(cmd \<Rightarrow> cmd_decl) \<Rightarrow> cmd \<Rightarrow> parse_map_t \<Rightarrow> cli_error list" where
  "is_singleton decl c parsed =
     (if present decl parsed c \<and> length parsed \<noteq> 1 then [NotSingleton c] else [])"

definition one_of :: "(cmd \<Rightarrow> cmd_decl) \<Rightarrow> cmd list \<Rightarrow> parse_map_t \<Rightarrow> cli_error list" where
  "one_of decl cmds parsed =
     (if length (filter (present decl parsed) cmds) = 1 then [] else [NotOneOf cmds])"

definition is_one_valid :: "(cmd \<Rightarrow> cmd_decl) \<Rightarrow> parse_map_t \<Rightarrow> cmd \<Rightarrow> cli_error list" where
  "is_one_valid decl parsed c =
     (case get_raw decl parsed c of
        None \<Rightarrow> if required (opt (decl c)) then [NotPresent c] else []
      | Some raw \<Rightarrow>
          (case validate (decl c) raw of
             Some msg \<Rightarrow> [ValidateFailed c msg]
           | None \<Rightarrow> []))"

definition validate_leaves :: "(cmd \<Rightarrow> cmd_decl) \<Rightarrow> cmd list \<Rightarrow> parse_map_t \<Rightarrow> cli_error list" where
  "validate_leaves decl cmds parsed = concat (map (is_one_valid decl parsed) cmds)"

definition endl :: string where
  "endl = [CHR 0x0A]"

definition process_errors :: "(cli_error \<Rightarrow> string) \<Rightarrow> cli_error list \<Rightarrow> string" where
  "process_errors describe errors = concat (map (\<lambda>e. describe e @ endl) errors)"

text \<open>
  \<^verbatim>\<open>parse_and_validate_cli\<close>: what it writes to the error stream, and the parsed command
  line when the parse and the three rounds of checks pass. The parser header among the
  given sources ends a failed parse inside \<^verbatim>\<open>fail\<close>, which writes the message and a line
  end and calls \<^verbatim>\<open>std::exit(1)\<close>; this caller tests the result of \<^verbatim>\<open>parse_argv\<close> instead.
  The function follows the caller: a failed parse has written its message and yields
  the result that tests false. The exit status of the run is 1 either way.
\<close>

definition parse_and_validate_cli ::
  "(cmd \<Rightarrow> cmd_decl) \<Rightarrow> (cli_error \<Rightarrow> string) \<Rightarrow> string list \<Rightarrow> string \<times> parse_map_t option" where
  "parse_and_validate_cli decl describe argv =
     (case parse_argv decl argv of
        Inl msg \<Rightarrow>
          (msg @ endl
             @ ''Command line arguments were not parsed correctly, see stderr for more details.'',
           None)
      | Inr parsed \<Rightarrow>
          (let e1 = is_singleton decl Help parsed @ is_singleton decl Version parsed
           in if e1 \<noteq> [] then (process_errors describe e1, None)
              else
                (let e2 = one_of decl input_options parsed
                 in if e2 \<noteq> [] then (process_errors describe e2, None)
                    else
                      (let e3 = validate_leaves decl cmd_opts_list parsed
                       in if e3 \<noteq> [] then (process_errors describe e3, None)
                          else ([], Some parsed)))))"

subsection \<open>Loading the circuit\<close>

text \<open>
  The lifter, the two deserializers and the reader of seed files are outside the given
  sources; each is an argument that yields a circuit or the null pointer. \<^verbatim>\<open>get\<close> is read
  as \<^verbatim>\<open>get_raw\<close>: the casts of the option values are outside the given sources too.
  \<^verbatim>\<open>make_circuit\<close> reads the operating system and the architecture from the command line.
\<close>

record 'c loaders =
  smelt_and_forge :: "string list option \<Rightarrow> string list option \<Rightarrow> string list \<Rightarrow> 'c option"
  deserialize :: "string list \<Rightarrow> 'c option"
  smt_deserialize :: "string list \<Rightarrow> 'c option"
  read_ciff :: "string list \<Rightarrow> string list"

definition make_circuit :: "'c loaders \<Rightarrow> (cmd \<Rightarrow> cmd_decl) \<Rightarrow> parse_map_t \<Rightarrow> string list \<Rightarrow> 'c option" where
  "make_circuit ld decl cli buf = smelt_and_forge ld (get_raw decl cli OS) (get_raw decl cli Arch) buf"

definition get_input_circuit :: "'c loaders \<Rightarrow> (cmd \<Rightarrow> cmd_decl) \<Rightarrow> parse_map_t \<Rightarrow> 'c option" where
  "get_input_circuit ld decl cli =
     (case get_raw decl cli BytesIn of
        Some bytes \<Rightarrow> make_circuit ld decl cli bytes
      | None \<Rightarrow>
     (case get_raw decl cli IRIn of
        Some ir_file \<Rightarrow> deserialize ld ir_file
      | None \<Rightarrow>
     (case get_raw decl cli SMTIn of
        Some smt_file \<Rightarrow> smt_deserialize ld smt_file
      | None \<Rightarrow>
     (case get_raw decl cli CiffIn of
        Some cif \<Rightarrow> make_circuit ld decl cli (read_ciff ld cif)
      | None \<Rightarrow> None))))"

subsection \<open>The main function\<close>

text \<open>
  A run ends by returning from \<^verbatim>\<open>main\<close>, by an exception nobody catches, or by an abort.
\<close>

datatype exit_status = Returned int | Uncaught error | Aborted error

record process =
  status :: exit_status
  cout :: string
  cerr :: string

text \<open>
  Modelled from the spec: \<^verbatim>\<open>circ::unreachable()\<close> and \<^verbatim>\<open>VerifyCircuit\<close> are declared outside
  the given sources. By the spec an invariant violation and a failed verification abort
  the process with a diagnostic, so \<^verbatim>\<open>unreachable()\<close> ends the run as it does everywhere
  else in this theory, and the statement after it is not reached. The verification of
  the loaded circuit is the argument \<open>verify\<close>, which yields the failure or nothing.

  \<^verbatim>\<open>main\<close>, path by path, in source order. The other arguments are the help text, the
  option declarations, the wording of the validator, the loaders, and the stages after
  the \<^verbatim>\<open>add_pass\<close> calls (the optimizer run, the graph output, the construction of the
  graph of shared expressions and the emission), which fail or yield the text written
  to standard output. The two calls that initialize the support libraries are outside
  the repository and are taken to return.
\<close>

definition main ::
  "string \<Rightarrow> (cmd \<Rightarrow> cmd_decl) \<Rightarrow> (cli_error \<Rightarrow> string) \<Rightarrow> 'c loaders \<Rightarrow> ('c \<Rightarrow> error option)
     \<Rightarrow> (NamedPass list \<Rightarrow> 'c \<Rightarrow> parse_map_t \<Rightarrow> error + string) \<Rightarrow> string list \<Rightarrow> process" where
  "main help_str decl describe ld verify later_stages argv =
     (case parse_and_validate_cli decl describe argv of
        (err, None) \<Rightarrow> \<lparr>status = Returned 1, cout = [], cerr = err @ help_str\<rparr>
      | (err, Some parsed_cli) \<Rightarrow>
          if present decl parsed_cli Help
          then \<lparr>status = Returned 0, cout = help_str, cerr = err\<rparr>
          else if present decl parsed_cli Version
          then \<lparr>status = Returned 1, cout = [],
                cerr = err @ ''TODO: Implement proper version message''\<rparr>
          else
            (case get_input_circuit ld decl parsed_cli of
               None \<Rightarrow>
                 \<lparr>status = Aborted (Unreachable ''Not able to load circuit.''), cout = [], cerr = err\<rparr>
             | Some circuit \<Rightarrow>
                 (case verify circuit of
                    Some e \<Rightarrow> \<lparr>status = Aborted e, cout = [], cerr = err\<rparr>
                  | None \<Rightarrow>
                      (case driver_add_passes known_passes of
                         Inl e \<Rightarrow> \<lparr>status = Uncaught e, cout = [], cerr = err\<rparr>
                       | Inr passes \<Rightarrow>
                           (case later_stages passes circuit parsed_cli of
                              Inl e \<Rightarrow> \<lparr>status = Aborted e, cout = [], cerr = err\<rparr>
                            | Inr text \<Rightarrow> \<lparr>status = Returned 0, cout = text, cerr = err\<rparr>)))))"

subsection \<open>Exit paths\<close>

lemma filter_present_single:
  assumes "length (filter P cmds) = 1"
  shows "\<exists>c \<in> set cmds. P c"
proof -
  from assms have "filter P cmds \<noteq> []" by auto
  then show ?thesis by (auto simp: filter_empty_conv)
qed

lemma validated_not_singleton_option:
  assumes dist: "distinct (map (\<lambda>c. primary (opt (decl c))) cmd_opts_list)"
    and c: "c \<in> set other_options"
    and s: "is_singleton decl c parsed = []"
    and i: "one_of decl input_options parsed = []"
  shows "\<not> present decl parsed c"
proof
  assume p: "present decl parsed c"
  with s have "length parsed = 1" by (simp add: is_singleton_def split: if_splits)
  then obtain k v where parsed: "parsed = [(k, v)]"
    by (cases parsed) (auto simp: length_Suc_conv)
  from p have kc: "k = primary (opt (decl c))"
    by (auto simp: present_def get_raw_def parsed split: if_splits)
  from i have "length (filter (present decl parsed) input_options) = 1"
    by (simp add: one_of_def split: if_splits)
  from filter_present_single [OF this] obtain d where d: "d \<in> set input_options"
    and pd: "present decl parsed d" by blast
  from pd have kd: "k = primary (opt (decl d))"
    by (auto simp: present_def get_raw_def parsed split: if_splits)
  from c d have ne: "c \<noteq> d" and "c \<in> set cmd_opts_list" and "d \<in> set cmd_opts_list"
    by (auto simp: other_options_def input_options_def cmd_opts_list_def)
  with dist have "primary (opt (decl c)) \<noteq> primary (opt (decl d))"
    by (auto simp: distinct_map inj_on_def)
  with kc kd show False by simp
qed

lemma parse_and_validate_cli_Some:
  assumes "parse_and_validate_cli decl describe argv = (err, Some parsed)"
  shows "parse_argv decl argv = Inr parsed" and "err = []"
    and "is_singleton decl Help parsed = []" and "is_singleton decl Version parsed = []"
    and "one_of decl input_options parsed = []"
    and "validate_leaves decl cmd_opts_list parsed = []"
  using assms
  by (auto simp: parse_and_validate_cli_def Let_def split: sum.splits if_splits)

lemma driver_add_passes_known:
  "driver_add_passes known_passes = Inl (OutOfRange ''remove-transitive-advice'')"
  by (simp add: driver_add_passes_def add_pass_def known_passes_def)

text \<open>
  Claim C8. With option declarations whose primary spellings differ, every run of
  \<^verbatim>\<open>main\<close> ends in one of four ways, and neither the return of 0 nor the return of 3 is
  among them. It returns 1 with nothing on standard output and, on the error stream,
  what \<^verbatim>\<open>parse_and_validate_cli\<close> wrote followed by the help text: this is every command
  line that fails to parse or to validate, the ones with the help or the version option
  included, since neither passes the checks together with an input. It aborts in
  \<^verbatim>\<open>unreachable()\<close> with the diagnostic \<^verbatim>\<open>Not able to load circuit.\<close> when
  \<^verbatim>\<open>get_input_circuit\<close> yields the null pointer; the \<^verbatim>\<open>return 3\<close> behind it is not reached.
  It aborts in the verification of the loaded circuit. Or it ends with the exception of
  the first \<^verbatim>\<open>add_pass\<close>, whose name is not a key of the registry; the return of 0 at
  the end of \<^verbatim>\<open>main\<close> is not reached.
\<close>

theorem main_exit_paths:
  assumes dist: "distinct (map (\<lambda>c. primary (opt (decl c))) cmd_opts_list)"
  shows "(status (main help_str decl describe ld verify later_stages argv) = Returned 1
          \<and> cout (main help_str decl describe ld verify later_stages argv) = []
          \<and> cerr (main help_str decl describe ld verify later_stages argv)
              = fst (parse_and_validate_cli decl describe argv) @ help_str)
       \<or> status (main help_str decl describe ld verify later_stages argv)
            = Aborted (Unreachable ''Not able to load circuit.'')
       \<or> (\<exists>circuit e. verify circuit = Some e
            \<and> status (main help_str decl describe ld verify later_stages argv) = Aborted e)
       \<or> status (main help_str decl describe ld verify later_stages argv)
            = Uncaught (OutOfRange ''remove-transitive-advice'')"
proof (cases "parse_and_validate_cli decl describe argv")
  case (Pair err r)
  show ?thesis
  proof (cases r)
    case None
    with Pair show ?thesis by (simp add: main_def)
  next
    case (Some parsed)
    note v = parse_and_validate_cli_Some [OF Pair [unfolded Some]]
    have h: "\<not> present decl parsed Help"
      by (rule validated_not_singleton_option [OF dist _ v(3) v(5)]) (simp add: other_options_def)
    have w: "\<not> present decl parsed Version"
      by (rule validated_not_singleton_option [OF dist _ v(4) v(5)]) (simp add: other_options_def)
    show ?thesis
    proof (cases "get_input_circuit ld decl parsed")
      case None
      with Pair Some h w show ?thesis by (simp add: main_def)
    next
      case (Some circuit)
      note c = this
      show ?thesis
      proof (cases "verify circuit")
        case None
        with Pair \<open>r = Some parsed\<close> h w c show ?thesis
          by (simp add: main_def driver_add_passes_known)
      next
        case (Some e)
        with Pair \<open>r = Some parsed\<close> h w c have
          "status (main help_str decl describe ld verify later_stages argv) = Aborted e"
          by (simp add: main_def)
        with Some show ?thesis by blast
      qed
    qed
  qed
qed

text \<open>
  An example. The option declarations give every option its flag name with two dashes,
  one value for the paths and names, any number of values for the highlights and none
  for the help and the version option. The loaders know one file,
  \<^verbatim>\<open>circuit.circir\<close>; the verification accepts and the later stages would print a text.
\<close>

definition plain_option :: "string \<Rightarrow> int \<Rightarrow> cmd_decl" where
  "plain_option name n =
     \<lparr>opt = \<lparr>primary = name, aliases = [], required = False\<rparr>, arity = n, validate = (\<lambda>raw. None)\<rparr>"

definition example_decl :: "cmd \<Rightarrow> cmd_decl" where
  "example_decl c =
     (case c of
        CiffIn \<Rightarrow> plain_option ''--ciff-in'' 1
      | IRIn \<Rightarrow> plain_option ''--ir-in'' 1
      | SMTIn \<Rightarrow> plain_option ''--smt-in'' 1
      | BytesIn \<Rightarrow> plain_option ''--bytes-in'' 1
      | DecoderOut \<Rightarrow> plain_option ''--dec-out'' 1
      | DotOut \<Rightarrow> plain_option ''--dot-out'' 1
      | DotHighlight \<Rightarrow> plain_option ''--dot-highlight'' (- 1)
      | Arch \<Rightarrow> plain_option ''--arch'' 1
      | OS \<Rightarrow> plain_option ''--os'' 1
      | Help \<Rightarrow> plain_option ''--help'' 0
      | Version \<Rightarrow> plain_option ''--version'' 0)"

definition example_describe :: "cli_error \<Rightarrow> string" where
  "example_describe e =
     (case e of
        NotSingleton c \<Rightarrow> primary (opt (example_decl c)) @ '' must be the only option''
      | NotOneOf cmds \<Rightarrow> ''exactly one input is expected''
      | NotPresent c \<Rightarrow> primary (opt (example_decl c)) @ '' is required''
      | ValidateFailed c msg \<Rightarrow> msg)"

definition example_loaders :: "unit loaders" where
  "example_loaders =
     \<lparr>smelt_and_forge = (\<lambda>os arch buf. None),
      deserialize = (\<lambda>ir_file. if ir_file = [''circuit.circir''] then Some () else None),
      smt_deserialize = (\<lambda>smt_file. None),
      read_ciff = (\<lambda>cif. [])\<rparr>"

definition example_main :: "string list \<Rightarrow> process" where
  "example_main argv =
     main ''usage'' example_decl example_describe example_loaders (\<lambda>circuit. None)
       (\<lambda>passes circuit cli. Inr ''decoder text'') argv"

text \<open>
  A command line naming a file that holds a circuit ends with the exception instead
  of the return of 0; one naming a file that does not load ends with the abort instead
  of the return of 3.
\<close>

theorem main_exit_paths_witness:
  "distinct (map (\<lambda>c. primary (opt (example_decl c))) cmd_opts_list)
   \<and> parse_and_validate_cli example_decl example_describe [''decoder'', ''--ir-in'', ''circuit.circir'']
       = ([], Some [(''--ir-in'', [''circuit.circir''])])
   \<and> example_main [''decoder'', ''--ir-in'', ''circuit.circir'']
       = \<lparr>status = Uncaught (OutOfRange ''remove-transitive-advice''), cout = [], cerr = []\<rparr>
   \<and> example_main [''decoder'', ''--ir-in'', ''missing.circir'']
       = \<lparr>status = Aborted (Unreachable ''Not able to load circuit.''), cout = [], cerr = []\<rparr>"
proof -
  have d: "distinct (map (\<lambda>c. primary (opt (example_decl c))) cmd_opts_list)"
    by code_simp
  have p: "parse_and_validate_cli example_decl example_describe [''decoder'', ''--ir-in'', ''circuit.circir'']
       = ([], Some [(''--ir-in'', [''circuit.circir''])])"
    by code_simp
  have a: "cout (example_main [''decoder'', ''--ir-in'', ''circuit.circir'']) = []"
    "cerr (example_main [''decoder'', ''--ir-in'', ''circuit.circir'']) = []"
    by code_simp+
  have n: "status (example_main [''decoder'', ''--ir-in'', ''circuit.circir'']) \<noteq> Returned 1"
    "status (example_main [''decoder'', ''--ir-in'', ''circuit.circir''])
       \<noteq> Aborted (Unreachable ''Not able to load circuit.'')"
    by code_simp+
  from main_exit_paths [OF d, of "''usage''" example_describe example_loaders "\<lambda>circuit. None"
      "\<lambda>passes circuit cli. Inr ''decoder text''" "[''decoder'', ''--ir-in'', ''circuit.circir'']"] n
  have s: "status (example_main [''decoder'', ''--ir-in'', ''circuit.circir''])
             = Uncaught (OutOfRange ''remove-transitive-advice'')"
    by (simp add: example_main_def)
  have e1: "example_main [''decoder'', ''--ir-in'', ''circuit.circir'']
       = \<lparr>status = Uncaught (OutOfRange ''remove-transitive-advice''), cout = [], cerr = []\<rparr>"
    using s a by (cases "example_main [''decoder'', ''--ir-in'', ''circuit.circir'']") simp
  have e2: "example_main [''decoder'', ''--ir-in'', ''missing.circir'']
       = \<lparr>status = Aborted (Unreachable ''Not able to load circuit.''), cout = [], cerr = []\<rparr>"
    by code_simp
  from d p e1 e2 show ?thesis by (intro conjI)
qed

text \<open>
  Command lines that return 1: no option at all, the help or the version option alone or
  beside an input, two inputs, and an unknown option. Each ends with the help text on
  the error stream.
\<close>

lemma main_exit_one_examples:
  "example_main [''decoder'']
     = \<lparr>status = Returned 1, cout = [],
        cerr = ''Out of bonds read'' @ endl
          @ ''Command line arguments were not parsed correctly, see stderr for more details.''
          @ ''usage''\<rparr>
   \<and> example_main [''decoder'', ''--help'']
     = \<lparr>status = Returned 1, cout = [],
        cerr = ''exactly one input is expected'' @ endl @ ''usage''\<rparr>
   \<and> example_main [''decoder'', ''--version'']
     = \<lparr>status = Returned 1, cout = [],
        cerr = ''exactly one input is expected'' @ endl @ ''usage''\<rparr>
   \<and> example_main [''decoder'', ''--help'', ''--ir-in'', ''circuit.circir'']
     = \<lparr>status = Returned 1, cout = [],
        cerr = ''--help must be the only option'' @ endl @ ''usage''\<rparr>
   \<and> example_main [''decoder'', ''--ir-in'', ''circuit.circir'', ''--smt-in'', ''circuit.smt2'']
     = \<lparr>status = Returned 1, cout = [],
        cerr = ''exactly one input is expected'' @ endl @ ''usage''\<rparr>
   \<and> example_main [''decoder'', ''--frobnicate'']
     = \<lparr>status = Returned 1, cout = [],
        cerr = ''Unrecognized option --frobnicate'' @ endl
          @ ''Command line arguments were not parsed correctly, see stderr for more details.''
          @ ''usage''\<rparr>"
  by code_simp

end
